theory Spec2Isabelle
  imports Main
begin

section \<open>Data model\<close>

text \<open>
  Modelled from the spec: the metadata types of package \<^verbatim>\<open>data\<close>, which
  \<^verbatim>\<open>client/delegations.go\<close> imports and whose declarations are not part of these
  sources. The records follow section 3 of the spec and carry the fields that the source
  reads, under the source's names. \<^verbatim>\<open>json.RawMessage\<close> is a byte string.
\<close>

type_synonym bytes = string

record TargetFileMeta =
  Length :: int
  Hashes :: "(string \<times> bytes) list"
  Custom :: "bytes option"

text \<open>
  An entry of \<^verbatim>\<open>snapshot.Meta\<close>. The source reads its \<^verbatim>\<open>Version\<close>, here
  \<open>FileVersion\<close>, since \<open>Version\<close> is the field of the snapshot itself.
\<close>

record SnapshotFileMeta =
  FileLength :: int
  FileHashes :: "(string \<times> bytes) list"
  FileVersion :: int

record Snapshot =
  Version :: int
  Meta :: "string \<rightharpoonup> SnapshotFileMeta"

record DelegatedRole =
  Name :: string
  KeyIDs :: "string list"
  Threshold :: int
  Terminating :: bool
  PathHashPrefixes :: "string list"
  Paths :: "string list"

record Delegations =
  Keys :: "(string \<times> bytes) list"
  Roles :: "DelegatedRole list"

text \<open>
  \<^verbatim>\<open>data.Targets\<close>: its version (\<open>TargetsVersion\<close>) and expiry time, the map of
  target paths and the optional delegations (a nil pointer in the source is \<open>None\<close>).
\<close>

record Targets =
  TargetsVersion :: int
  Expires :: int
  Targets :: "string \<rightharpoonup> TargetFileMeta"
  Delegations :: "Delegations option"

text \<open>
  The errors that \<^verbatim>\<open>client/delegations.go\<close> constructs, with their fields in the
  order of the source. Errors handed back by the code it calls (\<^verbatim>\<open>getLocalMeta\<close>,
  the download, the verifiers, the path matcher, the local store) are values of an
  arbitrary type \<open>'e\<close>, kept apart from the five above; they reach the caller either as
  they are (\<open>External\<close>) or wrapped in \<^verbatim>\<open>ErrDecodeFailed\<close>.
\<close>

datatype 'e error =
    ErrNoLocalSnapshot
  | ErrDecodeFailed string 'e
  | ErrRoleNotInSnapshot string int
  | ErrUnknownTarget string int
  | ErrMaxDelegations string int int
  | External 'e

text \<open>
  The declaration of \<^verbatim>\<open>Client\<close> is not part of these sources; the record has the
  fields that \<^verbatim>\<open>client/delegations.go\<close> reads and writes. \<open>'db\<close> is the
  root-trust key database \<^verbatim>\<open>c.db\<close>, \<open>'s\<close> the persistent local store
  \<^verbatim>\<open>c.local\<close>; \<open>localMeta\<close> is the in-memory copy of the local metadata.
\<close>

record ('db, 's) Client =
  MaxDelegations :: int
  localMeta :: "string \<rightharpoonup> bytes"
  snapshotVer :: int
  db :: 'db
  local :: 's

section \<open>The delegations iterator\<close>

record 'v delegation =
  delegator :: string
  verifier :: 'v
  delegatee :: DelegatedRole

text \<open>
  The stack is a Go slice: the top of the stack is the last element.
  \<^verbatim>\<open>visitedRoles\<close> is a map to the empty struct, that is, a set.
\<close>

record 'v delegationsIterator =
  stack :: "'v delegation list"
  target :: string
  visitedRoles :: "string set"

text \<open>The zero value of \<^verbatim>\<open>data.DelegatedRole\<close> with the given name.\<close>

definition DelegatedRole_named :: "string \<Rightarrow> DelegatedRole" where
  "DelegatedRole_named n =
     \<lparr>Name = n, KeyIDs = [], Threshold = 0, Terminating = False,
      PathHashPrefixes = [], Paths = []\<rparr>"

text \<open>
  \<^verbatim>\<open>newDelegationsIterator\<close>. The seed edge leaves \<^verbatim>\<open>delegator\<close> and
  \<^verbatim>\<open>verifier\<close> at their zero values; \<open>zv\<close> is the zero value of
  \<^verbatim>\<open>verify.DelegationsVerifier\<close>.
\<close>

definition newDelegationsIterator :: "'v \<Rightarrow> string \<Rightarrow> 'v delegationsIterator" where
  "newDelegationsIterator zv tgt =
     \<lparr>stack = [\<lparr>delegator = [], verifier = zv, delegatee = DelegatedRole_named ''targets''\<rparr>],
      target = tgt,
      visitedRoles = {}\<rparr>"

text \<open>
  \<^verbatim>\<open>delegationsIterator.next\<close>: pop the top edge; an edge whose role name was
  visited is skipped by a call of \<^verbatim>\<open>next\<close> on the popped iterator; a terminating
  edge empties the stack. The result pairs the returned edge (\<open>None\<close> for
  \<^verbatim>\<open>ok == false\<close>) with the mutated iterator.
\<close>

function next_it :: "'v delegationsIterator \<Rightarrow> 'v delegation option \<times> 'v delegationsIterator" where
  "next_it d =
     (if stack d = [] then (None, d)
      else if Name (delegatee (last (stack d))) \<in> visitedRoles d
        then next_it (d\<lparr>stack := butlast (stack d)\<rparr>)
      else (Some (last (stack d)),
            d\<lparr>stack := (if Terminating (delegatee (last (stack d))) then [] else butlast (stack d)),
              visitedRoles := insert (Name (delegatee (last (stack d)))) (visitedRoles d)\<rparr>))"
  by pat_completeness auto
termination
  by (relation "measure (\<lambda>d. length (stack d))") auto

declare next_it.simps [simp del]

text \<open>
  \<^verbatim>\<open>delegationsIterator.add\<close>. \<open>mp\<close> is \<^verbatim>\<open>DelegatedRole.MatchesPath\<close>
  (package \<^verbatim>\<open>data\<close>): \<open>Inl\<close> its error, \<open>Inr\<close> its boolean. The source walks
  \<^verbatim>\<open>roles\<close> from the last index down to 0; \<open>add_loop\<close> takes the roles in
  that order. An error leaves the edges pushed so far on the stack.
\<close>

fun add_loop :: "(DelegatedRole \<Rightarrow> string \<Rightarrow> 'e + bool) \<Rightarrow> string \<Rightarrow> 'v \<Rightarrow>
    DelegatedRole list \<Rightarrow> 'v delegationsIterator \<Rightarrow> 'e option \<times> 'v delegationsIterator" where
  "add_loop mp dlg vf [] d = (None, d)"
| "add_loop mp dlg vf (r # rs) d =
     (case mp r (target d) of
        Inl err \<Rightarrow> (Some err, d)
      | Inr matchesPath \<Rightarrow>
          add_loop mp dlg vf rs
            (if matchesPath
             then d\<lparr>stack := stack d @ [\<lparr>delegator = dlg, verifier = vf, delegatee = r\<rparr>]\<rparr>
             else d))"

definition add :: "(DelegatedRole \<Rightarrow> string \<Rightarrow> 'e + bool) \<Rightarrow> 'v delegationsIterator \<Rightarrow>
    DelegatedRole list \<Rightarrow> string \<Rightarrow> 'v \<Rightarrow> 'e option \<times> 'v delegationsIterator" where
  "add mp d roles dlg vf = add_loop mp dlg vf (rev roles) d"

section \<open>Driving an iterator\<close>

text \<open>
  What a caller can do with one iterator: any sequence of calls of \<^verbatim>\<open>next\<close> and
  \<^verbatim>\<open>add\<close>. \<open>run_ops\<close> collects the edges that the calls of \<^verbatim>\<open>next\<close> return,
  in order. (\<^verbatim>\<open>getTargetFileMeta\<close> alternates the two calls and stops at the first
  error of \<^verbatim>\<open>add\<close>; here the caller may go on with the iterator as \<^verbatim>\<open>add\<close>
  left it.)
\<close>

datatype 'v iter_op = Next | Add "DelegatedRole list" string 'v

fun run_ops :: "(DelegatedRole \<Rightarrow> string \<Rightarrow> 'e + bool) \<Rightarrow> 'v iter_op list \<Rightarrow>
    'v delegationsIterator \<Rightarrow> 'v delegation list" where
  "run_ops mp [] d = []"
| "run_ops mp (Next # ops) d =
     (case next_it d of
        (None, d') \<Rightarrow> run_ops mp ops d'
      | (Some e, d') \<Rightarrow> e # run_ops mp ops d')"
| "run_ops mp (Add roles dlg vf # ops) d = run_ops mp ops (snd (add mp d roles dlg vf))"

text \<open>The edges that the calls of \<^verbatim>\<open>add\<close> in \<open>ops\<close> are given and that match \<open>tgt\<close>.\<close>

fun pushed_by :: "(DelegatedRole \<Rightarrow> string \<Rightarrow> 'e + bool) \<Rightarrow> string \<Rightarrow> 'v iter_op list \<Rightarrow>
    'v delegation list" where
  "pushed_by mp tgt [] = []"
| "pushed_by mp tgt (Next # ops) = pushed_by mp tgt ops"
| "pushed_by mp tgt (Add roles dlg vf # ops) =
     map (\<lambda>r. \<lparr>delegator = dlg, verifier = vf, delegatee = r\<rparr>)
       (filter (\<lambda>r. mp r tgt = Inr True) roles) @ pushed_by mp tgt ops"

section \<open>Pre-order traversal\<close>

text \<open>
  A delegation graph gives, for every edge, what the loop registers after visiting it: the
  roles that the metadata of the delegatee declares, in declared order, and the verifier
  built from its delegations (no roles when the metadata has no delegations).
  \<open>traverse mp g n d\<close> runs the iterator \<open>d\<close> the way the loop of
  \<^verbatim>\<open>getTargetFileMeta\<close> does, for at most \<open>n\<close> passes: \<^verbatim>\<open>next\<close>, then
  \<^verbatim>\<open>add\<close> with the roles of the edge returned. It yields the edges visited, in
  order, and stops when the iterator is exhausted or \<^verbatim>\<open>add\<close> fails.
\<close>

type_synonym 'v graph = "'v delegation \<Rightarrow> DelegatedRole list \<times> 'v"

fun traverse :: "(DelegatedRole \<Rightarrow> string \<Rightarrow> 'e + bool) \<Rightarrow> 'v graph \<Rightarrow> nat \<Rightarrow>
    'v delegationsIterator \<Rightarrow> 'v delegation list" where
  "traverse mp g 0 d = []"
| "traverse mp g (Suc n) d =
     (case next_it d of
        (None, d1) \<Rightarrow> []
      | (Some e, d1) \<Rightarrow>
          e # (case add mp d1 (fst (g e)) (Name (delegatee e)) (snd (g e)) of
                 (None, d2) \<Rightarrow> traverse mp g n d2
               | (Some err, d2) \<Rightarrow> []))"

text \<open>
  The specification's traversal, written as a recursion over the graph and not over a
  stack. \<open>children\<close> are the edges to the roles of an edge that match the target, in
  declared order. \<open>preorder k ch V es\<close> visits the sibling edges \<open>es\<close> from the first
  to the last, each one followed by the whole of its subtree before the next sibling; an
  edge whose role name is in the visited set \<open>V\<close> is skipped; after a terminating edge
  and its subtree nothing more is visited, in any branch. The result is the visited set,
  whether the traversal was cut by a terminating edge, and the edges visited in order.
  \<open>k\<close> bounds the number of nested calls; \<open>None\<close> means that it did not suffice.
\<close>

definition children :: "(DelegatedRole \<Rightarrow> string \<Rightarrow> 'e + bool) \<Rightarrow> 'v graph \<Rightarrow> string \<Rightarrow>
    'v delegation \<Rightarrow> 'v delegation list" where
  "children mp g tgt e =
     map (\<lambda>r. \<lparr>delegator = Name (delegatee e), verifier = snd (g e), delegatee = r\<rparr>)
       (filter (\<lambda>r. mp r tgt = Inr True) (fst (g e)))"

fun preorder :: "nat \<Rightarrow> ('v delegation \<Rightarrow> 'v delegation list) \<Rightarrow> string set \<Rightarrow>
    'v delegation list \<Rightarrow> (string set \<times> bool \<times> 'v delegation list) option" where
  "preorder 0 ch V es = None"
| "preorder (Suc k) ch V [] = Some (V, False, [])"
| "preorder (Suc k) ch V (e # es) =
     (if Name (delegatee e) \<in> V then preorder k ch V es
      else case preorder k ch (insert (Name (delegatee e)) V) (ch e) of
             None \<Rightarrow> None
           | Some (V1, stop1, tr1) \<Rightarrow>
               if Terminating (delegatee e) \<or> stop1 then Some (V1, True, e # tr1)
               else (case preorder k ch V1 es of
                       None \<Rightarrow> None
                     | Some (V2, stop2, tr2) \<Rightarrow> Some (V2, stop2, e # tr1 @ tr2)))"

section \<open>Collaborators\<close>

text \<open>
  The functions of this repository that \<^verbatim>\<open>client/delegations.go\<close> calls and
  that live in other files are parameters of the model, gathered in one record:
  \<^item> \<open>getLocalMeta\<close>: \<^verbatim>\<open>Client.getLocalMeta\<close>, which may rewrite any field
    of the client;
  \<^item> \<open>dbUnmarshalSnapshot\<close>, \<open>dbUnmarshalTargets\<close>: \<^verbatim>\<open>c.db.Unmarshal\<close> into a
    snapshot and into a targets value, with the role and the version passed;
  \<^item> \<open>verifierUnmarshal\<close>: \<^verbatim>\<open>DelegationsVerifier.Unmarshal\<close>;
  \<^item> \<open>localMetaFromSnapshot\<close>, \<open>downloadMetaFromSnapshot\<close>: the cache lookup and
    the download, both reading the client without changing it;
  \<^item> \<open>SetMeta\<close>: \<^verbatim>\<open>c.local.SetMeta\<close>, returning its error and the store it
    leaves behind;
  \<^item> \<open>NewDelegationsVerifier\<close>: \<^verbatim>\<open>verify.NewDelegationsVerifier\<close>;
  \<^item> \<open>MatchesPath\<close>: \<^verbatim>\<open>DelegatedRole.MatchesPath\<close>;
  \<^item> \<open>zeroVerifier\<close>: the zero value of \<^verbatim>\<open>verify.DelegationsVerifier\<close>.
\<close>

record ('v, 'e, 'db, 's) collab =
  getLocalMeta :: "('db, 's) Client \<Rightarrow> 'e option \<times> ('db, 's) Client"
  dbUnmarshalSnapshot :: "'db \<Rightarrow> bytes \<Rightarrow> string \<Rightarrow> int \<Rightarrow> 'e + Snapshot"
  dbUnmarshalTargets :: "'db \<Rightarrow> bytes \<Rightarrow> string \<Rightarrow> int \<Rightarrow> 'e + Targets"
  verifierUnmarshal :: "'v \<Rightarrow> bytes \<Rightarrow> string \<Rightarrow> int \<Rightarrow> 'e + Targets"
  localMetaFromSnapshot :: "('db, 's) Client \<Rightarrow> string \<Rightarrow> SnapshotFileMeta \<Rightarrow> bytes \<times> bool"
  downloadMetaFromSnapshot :: "('db, 's) Client \<Rightarrow> string \<Rightarrow> SnapshotFileMeta \<Rightarrow> 'e + bytes"
  SetMeta :: "'s \<Rightarrow> string \<Rightarrow> bytes \<Rightarrow> 'e option \<times> 's"
  NewDelegationsVerifier :: "Delegations \<Rightarrow> 'e + 'v"
  MatchesPath :: "DelegatedRole \<Rightarrow> string \<Rightarrow> 'e + bool"
  zeroVerifier :: 'v

section \<open>Loading metadata\<close>

text \<open>\<^verbatim>\<open>Client.loadLocalSnapshot\<close>; the client comes back as \<^verbatim>\<open>getLocalMeta\<close> left it.\<close>

definition loadLocalSnapshot :: "('v, 'e, 'db, 's) collab \<Rightarrow> ('db, 's) Client \<Rightarrow>
    ('e error + Snapshot) \<times> ('db, 's) Client" where
  "loadLocalSnapshot K c =
     (case getLocalMeta K c of
        (Some err, c1) \<Rightarrow> (Inl (External err), c1)
      | (None, c1) \<Rightarrow>
          (case localMeta c1 ''snapshot.json'' of
             None \<Rightarrow> (Inl ErrNoLocalSnapshot, c1)
           | Some rawS \<Rightarrow>
               (case dbUnmarshalSnapshot K (db c1) rawS ''snapshot'' (snapshotVer c1) of
                  Inl err \<Rightarrow> (Inl (ErrDecodeFailed ''snapshot.json'' err), c1)
                | Inr snapshot \<Rightarrow> (Inr snapshot, c1))))"

text \<open>
  \<^verbatim>\<open>Client.loadDelegatedTargets\<close>. The only field of the client it writes is the
  local store, through \<^verbatim>\<open>SetMeta\<close>.
\<close>

definition loadDelegatedTargets :: "('v, 'e, 'db, 's) collab \<Rightarrow> ('db, 's) Client \<Rightarrow> Snapshot \<Rightarrow>
    string \<Rightarrow> 'v \<Rightarrow> ('e error + Targets) \<times> ('db, 's) Client" where
  "loadDelegatedTargets K c snapshot role vf =
     (let fileName = role @ ''.json'' in
      case Meta snapshot fileName of
        None \<Rightarrow> (Inl (ErrRoleNotInSnapshot role (Version snapshot)), c)
      | Some fileMeta \<Rightarrow>
          (case localMetaFromSnapshot K c fileName fileMeta of
             (raw0, alreadyStored) \<Rightarrow>
               (case (if \<not> alreadyStored then downloadMetaFromSnapshot K c fileName fileMeta
                      else Inr raw0) of
                  Inl err \<Rightarrow> (Inl (External err), c)
                | Inr raw \<Rightarrow>
                    (case (if role = ''targets''
                           then dbUnmarshalTargets K (db c) raw role (FileVersion fileMeta)
                           else verifierUnmarshal K vf raw role (FileVersion fileMeta)) of
                       Inl err \<Rightarrow> (Inl (ErrDecodeFailed fileName err), c)
                     | Inr targets \<Rightarrow>
                         (if \<not> alreadyStored
                          then (case SetMeta K (local c) fileName raw of
                                  (Some err, l') \<Rightarrow> (Inl (External err), c\<lparr>local := l'\<rparr>)
                                | (None, l') \<Rightarrow> (Inr targets, c\<lparr>local := l'\<rparr>))
                          else (Inr targets, c))))))"

section \<open>Resolving a target\<close>

text \<open>
  One pass through the body of the loop of \<^verbatim>\<open>getTargetFileMeta\<close> either returns
  from the function or goes on to the next pass.
\<close>

datatype ('r, 'k) flow = Return 'r | Continue 'k

text \<open>
  Besides the iterator and the client, the loop state carries a log that the source does
  not have: every call of \<^verbatim>\<open>loadDelegatedTargets\<close>, as the edge it was made for
  and its result, in call order.
\<close>

type_synonym ('v, 'e) load_log = "('v delegation \<times> ('e error + Targets)) list"

type_synonym ('v, 'e, 'db, 's) loop_state =
  "'v delegationsIterator \<times> ('db, 's) Client \<times> ('v, 'e) load_log"

type_synonym ('v, 'e, 'db, 's) outcome =
  "('e error + TargetFileMeta) \<times> ('db, 's) Client \<times> ('v, 'e) load_log"

definition iteration :: "('v, 'e, 'db, 's) collab \<Rightarrow> Snapshot \<Rightarrow> string \<Rightarrow>
    ('v, 'e, 'db, 's) loop_state \<Rightarrow> (('v, 'e, 'db, 's) outcome, ('v, 'e, 'db, 's) loop_state) flow" where
  "iteration K snapshot tgt st =
     (case st of (delegations, c, lg) \<Rightarrow>
      case next_it delegations of
        (None, delegations1) \<Rightarrow> Return (Inl (ErrUnknownTarget tgt (Version snapshot)), c, lg)
      | (Some d, delegations1) \<Rightarrow>
          (case loadDelegatedTargets K c snapshot (Name (delegatee d)) (verifier d) of
             (Inl err, c1) \<Rightarrow> Return (Inl err, c1, lg @ [(d, Inl err)])
           | (Inr targets, c1) \<Rightarrow>
               (case Targets targets tgt of
                  Some m \<Rightarrow> Return (Inr m, c1, lg @ [(d, Inr targets)])
                | None \<Rightarrow>
                    (case Delegations targets of
                       None \<Rightarrow> Continue (delegations1, c1, lg @ [(d, Inr targets)])
                     | Some dl \<Rightarrow>
                         (case NewDelegationsVerifier K dl of
                            Inl err \<Rightarrow> Return (Inl (External err), c1, lg @ [(d, Inr targets)])
                          | Inr delegationsVerifier \<Rightarrow>
                              (case add (MatchesPath K) delegations1 (Roles dl)
                                      (Name (delegatee d)) delegationsVerifier of
                                 (Some err, delegations2) \<Rightarrow>
                                   Return (Inl (External err), c1, lg @ [(d, Inr targets)])
                               | (None, delegations2) \<Rightarrow>
                                   Continue (delegations2, c1, lg @ [(d, Inr targets)])))))))"

text \<open>
  The loop \<^verbatim>\<open>for i := 0; i < c.MaxDelegations; i++\<close>, entered at counter \<open>i\<close>,
  and the \<^verbatim>\<open>ErrMaxDelegations\<close> that follows it.
\<close>

function delegations_loop :: "('v, 'e, 'db, 's) collab \<Rightarrow> Snapshot \<Rightarrow> string \<Rightarrow> int \<Rightarrow>
    ('v, 'e, 'db, 's) loop_state \<Rightarrow> ('v, 'e, 'db, 's) outcome" where
  "delegations_loop K snapshot tgt i (it, c, lg) =
     (if i < MaxDelegations c
      then (case iteration K snapshot tgt (it, c, lg) of
              Return r \<Rightarrow> r
            | Continue st \<Rightarrow> delegations_loop K snapshot tgt (i + 1) st)
      else (Inl (ErrMaxDelegations tgt (MaxDelegations c) (Version snapshot)), c, lg))"
  by pat_completeness auto
termination
proof (relation "measure (\<lambda>(K, snapshot, tgt, i, it, c, lg). nat (MaxDelegations c - i))", goal_cases)
  case 1
  show ?case by simp
next
  case (2 K snapshot tgt i it c lg st)
  obtain it' c' lg' where st: "st = (it', c', lg')" by (cases st) auto
  have load: "MaxDelegations y = MaxDelegations c"
    if "loadDelegatedTargets K c snapshot role vf = (r, y)" for role vf r y
    using that
    by (auto simp: loadDelegatedTargets_def Let_def
        split: option.splits prod.splits sum.splits if_splits)
  from 2(2) st have "MaxDelegations c' = MaxDelegations c"
    by (auto simp: iteration_def split: prod.splits option.splits sum.splits dest: load)
  with 2 st show ?case by simp
qed

declare delegations_loop.simps [simp del]

text \<open>\<^verbatim>\<open>Client.getTargetFileMeta\<close>.\<close>

definition getTargetFileMeta :: "('v, 'e, 'db, 's) collab \<Rightarrow> ('db, 's) Client \<Rightarrow> string \<Rightarrow>
    ('v, 'e, 'db, 's) outcome" where
  "getTargetFileMeta K c tgt =
     (case loadLocalSnapshot K c of
        (Inl err, c1) \<Rightarrow> (Inl err, c1, [])
      | (Inr snapshot, c1) \<Rightarrow>
          delegations_loop K snapshot tgt 0 (newDelegationsIterator (zeroVerifier K) tgt, c1, []))"

section \<open>The log of a resolution\<close>

text \<open>The seed edge of \<^verbatim>\<open>newDelegationsIterator\<close>.\<close>

definition seed_edge :: "'v \<Rightarrow> 'v delegation" where
  "seed_edge zv = \<lparr>delegator = [], verifier = zv, delegatee = DelegatedRole_named ''targets''\<rparr>"

text \<open>The role names of the edges in a log, in call order.\<close>

definition log_names :: "('v, 'e) load_log \<Rightarrow> string list" where
  "log_names lg = map (\<lambda>entry. Name (delegatee (fst entry))) lg"

text \<open>
  \<open>registered_by K tgt entry e\<close>: the edge \<open>e\<close> is one that the loop pushes after the
  load recorded in \<open>entry\<close>. The load succeeded, the loaded metadata has delegations,
  \<open>e\<close> carries the name of the loaded role as delegator and the verifier built from these
  delegations, and its delegatee is one of their roles and matches the target path.
\<close>

definition registered_by :: "('v, 'e, 'db, 's) collab \<Rightarrow> string \<Rightarrow>
    'v delegation \<times> ('e error + Targets) \<Rightarrow> 'v delegation \<Rightarrow> bool" where
  "registered_by K tgt entry e =
     (case snd entry of
        Inl err \<Rightarrow> False
      | Inr T \<Rightarrow>
          (case Delegations T of
             None \<Rightarrow> False
           | Some dl \<Rightarrow>
               (case NewDelegationsVerifier K dl of
                  Inl err \<Rightarrow> False
                | Inr v \<Rightarrow>
                    delegator e = Name (delegatee (fst entry)) \<and> verifier e = v
                    \<and> delegatee e \<in> set (Roles dl)
                    \<and> MatchesPath K (delegatee e) tgt = Inr True)))"

text \<open>
  The shape of every log the loop can build: the role names are pairwise distinct, the
  first entry is for the seed edge, every later entry is for an edge registered by an
  earlier entry, and every entry but the last is a successful load of metadata that does
  not list the target.
\<close>

definition log_inv :: "('v, 'e, 'db, 's) collab \<Rightarrow> string \<Rightarrow> ('v, 'e) load_log \<Rightarrow> bool" where
  "log_inv K tgt lg =
     (distinct (log_names lg)
      \<and> (lg = [] \<or> fst (hd lg) = seed_edge (zeroVerifier K))
      \<and> (\<forall>i < length lg. 0 < i \<longrightarrow> (\<exists>j < i. registered_by K tgt (lg ! j) (fst (lg ! i))))
      \<and> (\<forall>entry \<in> set (butlast lg). \<exists>T. snd entry = Inr T \<and> Targets T tgt = None))"

text \<open>The invariant of the loop, on its state before each pass.\<close>

definition loop_inv :: "('v, 'e, 'db, 's) collab \<Rightarrow> string \<Rightarrow> ('v, 'e, 'db, 's) loop_state \<Rightarrow> bool" where
  "loop_inv K tgt st =
     (case st of (it, c, lg) \<Rightarrow>
        log_inv K tgt lg
      \<and> (\<forall>entry \<in> set lg. \<exists>T. snd entry = Inr T \<and> Targets T tgt = None)
      \<and> target it = tgt
      \<and> visitedRoles it = set (log_names lg)
      \<and> (if lg = [] then stack it = [seed_edge (zeroVerifier K)]
          else \<forall>e \<in> set (stack it). \<exists>entry \<in> set lg. registered_by K tgt entry e))"

text \<open>
  What the result of a resolution has to do with its log: a returned
  \<^verbatim>\<open>TargetFileMeta\<close> is the entry for the target in the metadata loaded last; a
  failed load is the last entry of the log and its error is the result.
\<close>

definition outcome_inv :: "('v, 'e, 'db, 's) collab \<Rightarrow> string \<Rightarrow> ('v, 'e, 'db, 's) outcome \<Rightarrow> bool" where
  "outcome_inv K tgt out =
     (case out of (r, c, lg) \<Rightarrow>
        log_inv K tgt lg
      \<and> (case r of
            Inr m \<Rightarrow> lg \<noteq> [] \<and> (\<exists>T. snd (last lg) = Inr T \<and> Targets T tgt = Some m)
          | Inl err \<Rightarrow>
              lg = [] \<or> (case snd (last lg) of
                           Inl err' \<Rightarrow> err' = err
                         | Inr T \<Rightarrow> Targets T tgt = None)))"

text \<open>
  Every entry of the log holds the result of \<^verbatim>\<open>loadDelegatedTargets\<close> for the name
  and the verifier of its edge, run on the client \<open>c\<close> with some state of the local
  store.
\<close>

definition log_loads :: "('v, 'e, 'db, 's) collab \<Rightarrow> ('db, 's) Client \<Rightarrow> Snapshot \<Rightarrow> ('v, 'e) load_log \<Rightarrow> bool" where
  "log_loads K c snapshot lg =
     (\<forall>entry \<in> set lg. \<exists>l. snd entry =
        fst (loadDelegatedTargets K (c\<lparr>local := l\<rparr>) snapshot
               (Name (delegatee (fst entry))) (verifier (fst entry))))"

text \<open>
  \<open>loaded_bytes K c f fileMeta raw\<close>: \<open>raw\<close> are the bytes that
  \<^verbatim>\<open>loadDelegatedTargets\<close> hands to \<^verbatim>\<open>Unmarshal\<close> for the file \<open>f\<close>: the
  stored bytes when the cache lookup accepts them, the downloaded bytes otherwise.
\<close>

definition loaded_bytes :: "('v, 'e, 'db, 's) collab \<Rightarrow> ('db, 's) Client \<Rightarrow> string \<Rightarrow>
    SnapshotFileMeta \<Rightarrow> bytes \<Rightarrow> bool" where
  "loaded_bytes K c f fileMeta raw =
     (if snd (localMetaFromSnapshot K c f fileMeta)
      then raw = fst (localMetaFromSnapshot K c f fileMeta)
      else downloadMetaFromSnapshot K c f fileMeta = Inr raw)"

text \<open>
  \<open>passes K snapshot tgt k st\<close> is the loop state after \<open>k\<close> passes through the body
  of the loop started in \<open>st\<close>, when none of these passes returns from the function;
  otherwise it is \<open>None\<close>.
\<close>

fun passes :: "('v, 'e, 'db, 's) collab \<Rightarrow> Snapshot \<Rightarrow> string \<Rightarrow> nat \<Rightarrow>
    ('v, 'e, 'db, 's) loop_state \<Rightarrow> ('v, 'e, 'db, 's) loop_state option" where
  "passes K snapshot tgt 0 st = Some st"
| "passes K snapshot tgt (Suc k) st =
     (case iteration K snapshot tgt st of
        Return r \<Rightarrow> None
      | Continue st' \<Rightarrow> passes K snapshot tgt k st')"

text \<open>
  The delegation graph that a resolution walks when the outcome of loading a role is a
  function \<open>L\<close> of the role name and the verifier: the roles declared by the loaded
  metadata and the verifier built from its delegations; no roles when the load fails,
  when there are no delegations or when the verifier cannot be built.
\<close>

definition graph_of :: "('v, 'e, 'db, 's) collab \<Rightarrow> (string \<Rightarrow> 'v \<Rightarrow> 'e error + Targets) \<Rightarrow> 'v graph" where
  "graph_of K L e =
     (case L (Name (delegatee e)) (verifier e) of
        Inl err \<Rightarrow> ([], zeroVerifier K)
      | Inr T \<Rightarrow>
          (case Delegations T of
             None \<Rightarrow> ([], zeroVerifier K)
           | Some dl \<Rightarrow>
               (case NewDelegationsVerifier K dl of
                  Inl err \<Rightarrow> ([], zeroVerifier K)
                | Inr v \<Rightarrow> (Roles dl, v))))"

section \<open>The verifier of the specification\<close>

text \<open>
  Modelled from the spec: the error kinds of its section 7 that are raised outside
  \<^verbatim>\<open>client/delegations.go\<close> (by the verifiers, the path matcher, the download and
  the local store), plus one for bytes that do not parse.
\<close>

datatype spec_error =
    InsufficientSignatures
  | VersionMismatch
  | Expired
  | MalformedPattern
  | DownloadIntegrityError
  | IoError
  | Unparsable

text \<open>
  Modelled from the spec: \<^verbatim>\<open>verify_and_decode(raw, role_name, expected_version)\<close>
  of section 4.3, the contract of \<^verbatim>\<open>Unmarshal\<close> in package \<^verbatim>\<open>verify\<close>, whose
  code is not part of these sources. After the signature check passes it decodes the bytes,
  rejects a decoded version different from the expected one (\<open>VersionMismatch\<close>) and
  then rejects expired metadata (\<open>Expired\<close>). \<open>sigs_ok\<close> is the signature check of
  the variant (root-anchored or threshold), \<open>decode\<close> the parser and \<open>now\<close> the
  time of the freshness clock.
\<close>

definition verify_and_decode :: "(bytes \<Rightarrow> string \<Rightarrow> bool) \<Rightarrow> (bytes \<Rightarrow> spec_error + Targets) \<Rightarrow> int \<Rightarrow>
    bytes \<Rightarrow> string \<Rightarrow> int \<Rightarrow> spec_error + Targets" where
  "verify_and_decode sigs_ok decode now raw role_name expected_version =
     (if \<not> sigs_ok raw role_name then Inl InsufficientSignatures
      else case decode raw of
             Inl err \<Rightarrow> Inl err
           | Inr decoded \<Rightarrow>
               if TargetsVersion decoded \<noteq> expected_version then Inl VersionMismatch
               else if Expires decoded \<le> now then Inl Expired
               else Inr decoded)"

section \<open>An example repository\<close>

text \<open>
  A small repository on which the functions above can be run. The top-level role
  \<open>targets\<close> delegates to \<open>a\<close>, \<open>b\<close> and \<open>c\<close>, in that order; \<open>a\<close> delegates to \<open>d\<close>
  and back to \<open>targets\<close>; only \<open>c\<close> lists a target, \<open>f\<close>. A role matches a path when the
  path is among its \<open>Paths\<close>; the pattern \<open>[\<close> is malformed. The file of a role is
  one capital letter; the remote \<open>e.json\<close> decodes to version 2 while the snapshot pins
  version 1. Only \<open>targets.json\<close> is in the local metadata; the other files are
  downloaded.
\<close>

definition ex_role :: "string \<Rightarrow> string list \<Rightarrow> bool \<Rightarrow> DelegatedRole" where
  "ex_role n ps t =
     \<lparr>Name = n, KeyIDs = [''k''], Threshold = 1, Terminating = t,
      PathHashPrefixes = [], Paths = ps\<rparr>"

definition ex_meta :: TargetFileMeta where
  "ex_meta = \<lparr>Length = 3, Hashes = [(''sha256'', ''00'')], Custom = None\<rparr>"

definition ex_targets :: "int \<Rightarrow> (string \<times> TargetFileMeta) list \<Rightarrow> DelegatedRole list \<Rightarrow> Targets" where
  "ex_targets v ts rs =
     \<lparr>TargetsVersion = v, Expires = 100, Targets = map_of ts,
      Delegations = (if rs = [] then None else Some \<lparr>Keys = [(''k'', ''pk'')], Roles = rs\<rparr>)\<rparr>"

definition ex_decode :: "bytes \<Rightarrow> spec_error + Targets" where
  "ex_decode raw =
     (if raw = ''T'' then Inr (ex_targets 1 []
         [ex_role ''a'' [''f'', ''g'', ''h''] False, ex_role ''b'' [''g''] False, ex_role ''c'' [''f''] False])
      else if raw = ''A'' then Inr (ex_targets 1 []
         [ex_role ''d'' [''f''] False, ex_role ''targets'' [''f'', ''h''] False])
      else if raw = ''B'' then Inr (ex_targets 1 [] [])
      else if raw = ''C'' then Inr (ex_targets 1 [(''f'', ex_meta)] [])
      else if raw = ''D'' then Inr (ex_targets 1 [] [])
      else if raw = ''E'' then Inr (ex_targets 2 [] [])
      else Inl Unparsable)"

definition ex_snapshot :: Snapshot where
  "ex_snapshot =
     \<lparr>Version = 7,
      Meta = map_of (map (\<lambda>f. (f, \<lparr>FileLength = 1, FileHashes = [], FileVersion = 1\<rparr>))
        [''targets.json'', ''a.json'', ''b.json'', ''c.json'', ''d.json'', ''e.json''])\<rparr>"

definition ex_remote :: "string \<rightharpoonup> bytes" where
  "ex_remote = map_of [(''targets.json'', ''T''), (''a.json'', ''A''), (''b.json'', ''B''),
     (''c.json'', ''C''), (''d.json'', ''D''), (''e.json'', ''E'')]"

text \<open>
  The comments of \<^verbatim>\<open>loadDelegatedTargets\<close> place the checks of the bytes against the
  snapshot entry (5.6.2, the hash; 5.6.4, the version) in the cache lookup and the download.
  In the example the bytes match the entry when they have its length and decode to its
  version; there are no hashes.
\<close>

definition ex_matches_snapshot :: "bytes \<Rightarrow> SnapshotFileMeta \<Rightarrow> bool" where
  "ex_matches_snapshot raw fm =
     (int (length raw) = FileLength fm
      \<and> (case ex_decode raw of Inl err \<Rightarrow> False | Inr T \<Rightarrow> TargetsVersion T = FileVersion fm))"

definition ex_client :: "int \<Rightarrow> (unit, (string \<times> bytes) list) Client" where
  "ex_client m =
     \<lparr>MaxDelegations = m,
      localMeta = map_of [(''snapshot.json'', ''S''), (''targets.json'', ''T'')],
      snapshotVer = 7, db = (), local = []\<rparr>"

definition ex_K :: "(string list, spec_error, unit, (string \<times> bytes) list) collab" where
  "ex_K =
     \<lparr>getLocalMeta = (\<lambda>c. (None, c)),
      dbUnmarshalSnapshot = (\<lambda>db raw role ver. if raw = ''S'' then Inr ex_snapshot else Inl Unparsable),
      dbUnmarshalTargets = (\<lambda>db. verify_and_decode (\<lambda>raw role. raw = ''T'') ex_decode 50),
      verifierUnmarshal = (\<lambda>vf. verify_and_decode (\<lambda>raw role. ''k'' \<in> set vf) ex_decode 50),
      localMetaFromSnapshot = (\<lambda>c f fm.
        case localMeta c f of None \<Rightarrow> ([], False) | Some b \<Rightarrow> (b, ex_matches_snapshot b fm)),
      downloadMetaFromSnapshot = (\<lambda>c f fm.
        case ex_remote f of
          None \<Rightarrow> Inl DownloadIntegrityError
        | Some b \<Rightarrow> if ex_matches_snapshot b fm then Inr b else Inl DownloadIntegrityError),
      SetMeta = (\<lambda>s f raw. (None, (f, raw) # s)),
      NewDelegationsVerifier = (\<lambda>dl. Inr (map fst (Keys dl))),
      MatchesPath = (\<lambda>r tgt. if ''['' \<in> set (Paths r) then Inl MalformedPattern else Inr (tgt \<in> set (Paths r))),
      zeroVerifier = []\<rparr>"


text \<open>
  An iterator in the middle of a resolution of \<open>f\<close>: \<open>targets\<close> was visited and has
  registered the terminating role \<open>t\<close> and, after it, the role \<open>b\<close>.
\<close>

definition ex_iterator :: "string list delegationsIterator" where
  "ex_iterator =
     \<lparr>stack = [\<lparr>delegator = ''targets'', verifier = [''k''], delegatee = ex_role ''b'' [''f''] False\<rparr>,
               \<lparr>delegator = ''targets'', verifier = [''k''], delegatee = ex_role ''t'' [''f''] True\<rparr>],
      target = ''f'',
      visitedRoles = {''targets''}\<rparr>"

text \<open>The outcome of loading a role of the example, a function of its name and verifier.\<close>

definition ex_load :: "string \<Rightarrow> string list \<Rightarrow> spec_error error + Targets" where
  "ex_load role vf = fst (loadDelegatedTargets ex_K (ex_client 10) ex_snapshot role vf)"

section \<open>Depth of the calls of next\<close>

text \<open>
  \<^verbatim>\<open>next\<close> skips a visited edge with \<^verbatim>\<open>return d.next()\<close>, a call of
  itself (Go keeps the caller's frame until the callee returns). \<open>next_depth\<close> follows
  the branches of \<open>next_it\<close> and counts the frames of \<^verbatim>\<open>next\<close> that are live
  at the deepest point of one call.
\<close>

function next_depth :: "'v delegationsIterator \<Rightarrow> nat" where
  "next_depth d =
     (if stack d = [] then 1
      else if Name (delegatee (last (stack d))) \<in> visitedRoles d
        then 1 + next_depth (d\<lparr>stack := butlast (stack d)\<rparr>)
      else 1)"
  by pat_completeness auto
termination
  by (relation "measure (\<lambda>d. length (stack d))") auto

declare next_depth.simps [simp del]

section \<open>Properties of the iterator\<close>

lemma next_it_Nil: "stack d = [] \<Longrightarrow> next_it d = (None, d)"
  by (subst next_it.simps) simp

lemma next_it_snoc:
  "next_it (d\<lparr>stack := s @ [e]\<rparr>) =
     (if Name (delegatee e) \<in> visitedRoles d then next_it (d\<lparr>stack := s\<rparr>)
      else (Some e, d\<lparr>stack := (if Terminating (delegatee e) then [] else s),
                      visitedRoles := insert (Name (delegatee e)) (visitedRoles d)\<rparr>))"
  by (subst next_it.simps) simp

lemma next_it_stack:
  "next_it (d\<lparr>stack := s\<rparr>) =
     (case dropWhile (\<lambda>e. Name (delegatee e) \<in> visitedRoles d) (rev s) of
        [] \<Rightarrow> (None, d\<lparr>stack := []\<rparr>)
      | e # below \<Rightarrow>
          (Some e, d\<lparr>stack := (if Terminating (delegatee e) then [] else rev below),
                     visitedRoles := insert (Name (delegatee e)) (visitedRoles d)\<rparr>))"
proof (induction s rule: rev_induct)
  case Nil
  show ?case by (simp add: next_it_Nil)
next
  case (snoc e s)
  then show ?case by (simp add: next_it_snoc)
qed

lemma next_it_eq:
  "next_it d =
     (case dropWhile (\<lambda>e. Name (delegatee e) \<in> visitedRoles d) (rev (stack d)) of
        [] \<Rightarrow> (None, d\<lparr>stack := []\<rparr>)
      | e # below \<Rightarrow>
          (Some e, d\<lparr>stack := (if Terminating (delegatee e) then [] else rev below),
                     visitedRoles := insert (Name (delegatee e)) (visitedRoles d)\<rparr>))"
  using next_it_stack [where d = d and s = "stack d"] by simp

lemma next_it_None:
  assumes "next_it d = (None, d')"
  shows "d' = d\<lparr>stack := []\<rparr>" and "\<forall>e \<in> set (stack d). Name (delegatee e) \<in> visitedRoles d"
proof -
  let ?P = "\<lambda>e. Name (delegatee e) \<in> visitedRoles d"
  from assms have dw: "dropWhile ?P (rev (stack d)) = []" and d': "d' = d\<lparr>stack := []\<rparr>"
    by (auto simp: next_it_eq [of d] split: list.splits)
  show "d' = d\<lparr>stack := []\<rparr>" by (rule d')
  from dw have "\<forall>e \<in> set (rev (stack d)). ?P e"
    by (simp add: dropWhile_eq_Nil_conv)
  then show "\<forall>e \<in> set (stack d). ?P e" by simp
qed

lemma next_it_Some:
  assumes "next_it d = (Some e, d')"
  shows "\<exists>below above. stack d = below @ e # above
           \<and> (\<forall>x \<in> set above. Name (delegatee x) \<in> visitedRoles d)
           \<and> Name (delegatee e) \<notin> visitedRoles d
           \<and> d' = d\<lparr>stack := (if Terminating (delegatee e) then [] else below),
                     visitedRoles := insert (Name (delegatee e)) (visitedRoles d)\<rparr>"
proof -
  let ?P = "\<lambda>e. Name (delegatee e) \<in> visitedRoles d"
  from assms obtain rb where dw: "dropWhile ?P (rev (stack d)) = e # rb"
    and d': "d' = d\<lparr>stack := (if Terminating (delegatee e) then [] else rev rb),
                     visitedRoles := insert (Name (delegatee e)) (visitedRoles d)\<rparr>"
    by (auto simp: next_it_eq [of d] split: list.splits)
  have "rev (stack d) = takeWhile ?P (rev (stack d)) @ dropWhile ?P (rev (stack d))" by simp
  with dw have "rev (stack d) = takeWhile ?P (rev (stack d)) @ e # rb" by simp
  then have "rev (rev (stack d)) = rev (takeWhile ?P (rev (stack d)) @ e # rb)" by (rule arg_cong)
  then have st: "stack d = rev rb @ e # rev (takeWhile ?P (rev (stack d)))" by simp
  have ab: "\<forall>x \<in> set (rev (takeWhile ?P (rev (stack d)))). ?P x"
    by (auto dest: set_takeWhileD)
  from dw have "\<not> ?P e" using hd_dropWhile [of ?P "rev (stack d)"] by simp
  with st ab d' show ?thesis by blast
qed

lemma next_depth_snoc:
  "next_depth (d\<lparr>stack := s @ [e]\<rparr>) =
     (if Name (delegatee e) \<in> visitedRoles d then Suc (next_depth (d\<lparr>stack := s\<rparr>)) else 1)"
  by (subst next_depth.simps) simp

lemma next_depth_stack:
  "next_depth (d\<lparr>stack := s\<rparr>) =
     Suc (length (takeWhile (\<lambda>e. Name (delegatee e) \<in> visitedRoles d) (rev s)))"
proof (induction s rule: rev_induct)
  case Nil
  show ?case by (subst next_depth.simps) simp
next
  case (snoc e s)
  then show ?case by (simp add: next_depth_snoc)
qed

section \<open>Properties of add\<close>

lemma add_loop_target: "target (snd (add_loop mp dlg vf rs d)) = target d"
  by (induction rs arbitrary: d) (auto split: sum.splits)

lemma add_loop_visitedRoles: "visitedRoles (snd (add_loop mp dlg vf rs d)) = visitedRoles d"
  by (induction rs arbitrary: d) (auto split: sum.splits)

lemma add_loop_eq:
  "add_loop mp dlg vf rs d =
     (map_option (\<lambda>r. projl (mp r (target d))) (find (\<lambda>r. isl (mp r (target d))) rs),
      d\<lparr>stack := stack d @
           map (\<lambda>r. \<lparr>delegator = dlg, verifier = vf, delegatee = r\<rparr>)
             (filter (\<lambda>r. mp r (target d) = Inr True)
                (takeWhile (\<lambda>r. \<not> isl (mp r (target d))) rs))\<rparr>)"
proof (induction rs arbitrary: d)
  case Nil
  show ?case by simp
next
  case (Cons r rs)
  show ?case
  proof (cases "mp r (target d)")
    case (Inl err)
    then show ?thesis by simp
  next
    case (Inr m)
    then show ?thesis by (cases m) (simp_all add: Cons.IH)
  qed
qed

lemma add_eq:
  "add mp d roles dlg vf =
     (map_option (\<lambda>r. projl (mp r (target d))) (find (\<lambda>r. isl (mp r (target d))) (rev roles)),
      d\<lparr>stack := stack d @
           map (\<lambda>r. \<lparr>delegator = dlg, verifier = vf, delegatee = r\<rparr>)
             (filter (\<lambda>r. mp r (target d) = Inr True)
                (takeWhile (\<lambda>r. \<not> isl (mp r (target d))) (rev roles)))\<rparr>)"
  by (simp add: add_def add_loop_eq)

lemma add_error_iff:
  "fst (add mp d roles dlg vf) \<noteq> None \<longleftrightarrow> (\<exists>r \<in> set roles. isl (mp r (target d)))"
  by (auto simp: add_eq find_None_iff)

lemma add_None:
  assumes "add mp d roles dlg vf = (None, d')"
  shows "d' = d\<lparr>stack := stack d @
           rev (map (\<lambda>r. \<lparr>delegator = dlg, verifier = vf, delegatee = r\<rparr>)
             (filter (\<lambda>r. mp r (target d) = Inr True) roles))\<rparr>"
proof -
  from assms have "fst (add mp d roles dlg vf) = None" by simp
  then have ok: "\<forall>r \<in> set (rev roles). \<not> isl (mp r (target d))"
    using add_error_iff [of mp d roles dlg vf] by auto
  then have "takeWhile (\<lambda>r. \<not> isl (mp r (target d))) (rev roles) = rev roles"
    by (simp add: takeWhile_eq_all_conv)
  with assms show ?thesis by (simp add: add_eq rev_map rev_filter)
qed

section \<open>Properties of the loop\<close>

lemma loadDelegatedTargets_MaxDelegations:
  "loadDelegatedTargets K c snapshot role vf = (r, c') \<Longrightarrow> MaxDelegations c' = MaxDelegations c"
  by (auto simp: loadDelegatedTargets_def Let_def split: option.splits prod.splits sum.splits if_splits)

lemma iteration_MaxDelegations:
  "iteration K snapshot tgt (it, c, lg) = Continue (it', c', lg') \<Longrightarrow>
   MaxDelegations c' = MaxDelegations c"
  by (auto simp: iteration_def split: prod.splits option.splits sum.splits
      dest: loadDelegatedTargets_MaxDelegations)

lemma iteration_Continue:
  assumes "iteration K snapshot tgt (it, c, lg) = Continue (it', c', lg')"
  shows "\<exists>d it1 T. next_it it = (Some d, it1)
      \<and> loadDelegatedTargets K c snapshot (Name (delegatee d)) (verifier d) = (Inr T, c')
      \<and> Targets T tgt = None
      \<and> lg' = lg @ [(d, Inr T)]
      \<and> (case Delegations T of
            None \<Rightarrow> it' = it1
          | Some dl \<Rightarrow> (\<exists>v. NewDelegationsVerifier K dl = Inr v
                \<and> add (MatchesPath K) it1 (Roles dl) (Name (delegatee d)) v = (None, it')))"
  using assms
  by (auto simp: iteration_def split: prod.splits option.splits sum.splits)

lemma iteration_Return:
  assumes "iteration K snapshot tgt (it, c, lg) = Return (r, c', lg')"
  shows "(\<exists>it1. next_it it = (None, it1) \<and> r = Inl (ErrUnknownTarget tgt (Version snapshot))
            \<and> c' = c \<and> lg' = lg)
      \<or> (\<exists>d it1 lr. next_it it = (Some d, it1)
            \<and> loadDelegatedTargets K c snapshot (Name (delegatee d)) (verifier d) = (lr, c')
            \<and> lg' = lg @ [(d, lr)]
            \<and> (case lr of
                  Inl err \<Rightarrow> r = Inl err
                | Inr T \<Rightarrow>
                    (case Targets T tgt of
                       Some m \<Rightarrow> r = Inr m
                     | None \<Rightarrow> (\<exists>dl. Delegations T = Some dl
                          \<and> (case NewDelegationsVerifier K dl of
                                Inl err \<Rightarrow> r = Inl (External err)
                              | Inr v \<Rightarrow> (\<exists>err. fst (add (MatchesPath K) it1 (Roles dl) (Name (delegatee d)) v) = Some err
                                    \<and> r = Inl (External err)))))))"
  using assms
  by (auto simp: iteration_def split: prod.splits option.splits sum.splits)

lemma delegations_loop_rule:
  assumes init: "I i st"
    and step: "\<And>i st st'. I i st \<Longrightarrow> i < MaxDelegations (fst (snd st)) \<Longrightarrow>
                 iteration K snapshot tgt st = Continue st' \<Longrightarrow> I (i + 1) st'"
    and ret: "\<And>i st r. I i st \<Longrightarrow> i < MaxDelegations (fst (snd st)) \<Longrightarrow>
                 iteration K snapshot tgt st = Return r \<Longrightarrow> Q r"
    and exit: "\<And>i it c lg. I i (it, c, lg) \<Longrightarrow> \<not> i < MaxDelegations c \<Longrightarrow>
                 Q (Inl (ErrMaxDelegations tgt (MaxDelegations c) (Version snapshot)), c, lg)"
  shows "Q (delegations_loop K snapshot tgt i st)"
  using init
proof (induction n \<equiv> "nat (MaxDelegations (fst (snd st)) - i)" arbitrary: i st)
  case 0
  obtain it c lg where st: "st = (it, c, lg)" by (cases st) auto
  with 0 have "\<not> i < MaxDelegations c" by simp
  with exit [of i it c lg] 0(2) st show ?case by (simp add: delegations_loop.simps [of K snapshot tgt i it c lg])
next
  case (Suc n)
  obtain it c lg where st: "st = (it, c, lg)" by (cases st) auto
  with Suc(2) have lt: "i < MaxDelegations c" by simp
  show ?case
  proof (cases "iteration K snapshot tgt (it, c, lg)")
    case (Return r)
    with ret [of i st r] Suc(3) lt st show ?thesis by (simp add: delegations_loop.simps [of K snapshot tgt i it c lg])
  next
    case (Continue st')
    obtain it' c' lg' where st': "st' = (it', c', lg')" by (cases st') auto
    from Continue st' have "MaxDelegations c' = MaxDelegations c"
      by (auto dest: iteration_MaxDelegations)
    with Suc(2) st st' have n: "n = nat (MaxDelegations (fst (snd st')) - (i + 1))" by simp
    from step [of i st st'] Suc(3) lt st Continue have "I (i + 1) st'" by simp
    from Suc(1) [OF n this] lt Continue st show ?thesis
      by (simp add: delegations_loop.simps [of K snapshot tgt i it c lg])
  qed
qed

section \<open>The invariant of the log\<close>

lemma log_names_simps [simp]:
  "log_names [] = []"
  "log_names (lg @ [(d, r)]) = log_names lg @ [Name (delegatee d)]"
  by (simp_all add: log_names_def)

lemma stack_newDelegationsIterator: "stack (newDelegationsIterator zv tgt) = [seed_edge zv]"
  by (simp add: newDelegationsIterator_def seed_edge_def)

lemma loop_inv_init: "loop_inv K tgt (newDelegationsIterator (zeroVerifier K) tgt, c, [])"
  by (simp add: loop_inv_def log_inv_def stack_newDelegationsIterator)
     (simp add: newDelegationsIterator_def)

text \<open>The edge that \<open>next_it\<close> returns under the invariant, and the log entry it makes.\<close>

lemma log_inv_snoc:
  assumes inv: "loop_inv K tgt (it, c, lg)"
    and nx: "next_it it = (Some d, it1)"
  shows "log_inv K tgt (lg @ [(d, lr)])"
proof -
  from next_it_Some [OF nx] obtain below above where
    st: "stack it = below @ d # above" and fresh: "Name (delegatee d) \<notin> visitedRoles it"
    by blast
  from inv have li: "log_inv K tgt lg"
    and ok: "\<forall>entry \<in> set lg. \<exists>T. snd entry = Inr T \<and> Targets T tgt = None"
    and vis: "visitedRoles it = set (log_names lg)"
    and stk: "if lg = [] then stack it = [seed_edge (zeroVerifier K)]
          else \<forall>e \<in> set (stack it). \<exists>entry \<in> set lg. registered_by K tgt entry e"
    by (simp_all add: loop_inv_def)
  from li fresh vis have dist: "distinct (log_names (lg @ [(d, lr)]))"
    by (simp add: log_inv_def)
  have hd: "lg @ [(d, lr)] = [] \<or> fst (hd (lg @ [(d, lr)])) = seed_edge (zeroVerifier K)"
  proof (cases "lg = []")
    case True
    with stk st have "d = seed_edge (zeroVerifier K)"
      by (cases below) auto
    with True show ?thesis by simp
  next
    case False
    with li show ?thesis by (simp add: log_inv_def)
  qed
  have reg: "\<exists>j < i. registered_by K tgt ((lg @ [(d, lr)]) ! j) (fst ((lg @ [(d, lr)]) ! i))"
    if i: "i < length (lg @ [(d, lr)])" "0 < i" for i
  proof (cases "i < length lg")
    case True
    with li i obtain j where "j < i" "registered_by K tgt (lg ! j) (fst (lg ! i))"
      by (auto simp: log_inv_def)
    with True show ?thesis by (auto simp: nth_append intro!: exI [of _ j])
  next
    case False
    with i have ieq: "i = length lg" and ne: "lg \<noteq> []" by auto
    from ne stk st obtain entry where "entry \<in> set lg" "registered_by K tgt entry d" by auto
    then obtain j where "j < length lg" "registered_by K tgt (lg ! j) d"
      by (auto simp: in_set_conv_nth)
    with ieq show ?thesis by (auto simp: nth_append intro!: exI [of _ j])
  qed
  from ok have "\<forall>entry \<in> set (butlast (lg @ [(d, lr)])). \<exists>T. snd entry = Inr T \<and> Targets T tgt = None"
    by simp
  with dist hd reg show ?thesis unfolding log_inv_def by blast
qed

lemma loop_inv_step:
  assumes inv: "loop_inv K tgt (it, c, lg)"
    and it: "iteration K snapshot tgt (it, c, lg) = Continue (it', c', lg')"
  shows "loop_inv K tgt (it', c', lg')"
proof -
  from iteration_Continue [OF it] obtain d it1 T where
    nx: "next_it it = (Some d, it1)"
    and T: "Targets T tgt = None"
    and lg': "lg' = lg @ [(d, Inr T)]"
    and reg: "case Delegations T of
            None \<Rightarrow> it' = it1
          | Some dl \<Rightarrow> (\<exists>v. NewDelegationsVerifier K dl = Inr v
                \<and> add (MatchesPath K) it1 (Roles dl) (Name (delegatee d)) v = (None, it'))"
    by blast
  from next_it_Some [OF nx] obtain below above where
    st: "stack it = below @ d # above"
    and it1: "it1 = it\<lparr>stack := (if Terminating (delegatee d) then [] else below),
                     visitedRoles := insert (Name (delegatee d)) (visitedRoles it)\<rparr>"
    by blast
  from inv have ok: "\<forall>entry \<in> set lg. \<exists>T. snd entry = Inr T \<and> Targets T tgt = None"
    and tg: "target it = tgt"
    and vis: "visitedRoles it = set (log_names lg)"
    and stk: "if lg = [] then stack it = [seed_edge (zeroVerifier K)]
          else \<forall>e \<in> set (stack it). \<exists>entry \<in> set lg. registered_by K tgt entry e"
    by (simp_all add: loop_inv_def)
  have li: "log_inv K tgt lg'" unfolding lg' by (rule log_inv_snoc [OF inv nx])
  from ok T lg' have ok': "\<forall>entry \<in> set lg'. \<exists>T. snd entry = Inr T \<and> Targets T tgt = None"
    by auto
  have old: "\<exists>entry \<in> set lg'. registered_by K tgt entry e" if "e \<in> set (stack it1)" for e
  proof (cases "lg = []")
    case True
    with stk st have "below = []" by (cases below) auto
    with it1 that show ?thesis by (simp split: if_splits)
  next
    case False
    from that it1 st have "e \<in> set (stack it)" by (auto split: if_splits)
    with False stk lg' show ?thesis by auto
  qed
  have tg1: "target it1 = tgt" and vis1: "visitedRoles it1 = set (log_names lg')"
    using it1 tg vis lg' by simp_all
  have rest: "target it' = tgt \<and> visitedRoles it' = set (log_names lg')
      \<and> (\<forall>e \<in> set (stack it'). \<exists>entry \<in> set lg'. registered_by K tgt entry e)"
  proof (cases "Delegations T")
    case None
    with reg have "it' = it1" by simp
    with tg1 vis1 old show ?thesis by simp
  next
    case (Some dl)
    with reg obtain v where v: "NewDelegationsVerifier K dl = Inr v"
      and ad: "add (MatchesPath K) it1 (Roles dl) (Name (delegatee d)) v = (None, it')"
      by auto
    from add_None [OF ad] have it': "it' = it1\<lparr>stack := stack it1 @
           rev (map (\<lambda>r. \<lparr>delegator = Name (delegatee d), verifier = v, delegatee = r\<rparr>)
             (filter (\<lambda>r. MatchesPath K r (target it1) = Inr True) (Roles dl)))\<rparr>" .
    have new: "registered_by K tgt (d, Inr T) \<lparr>delegator = Name (delegatee d), verifier = v, delegatee = r\<rparr>"
      if "r \<in> set (Roles dl)" "MatchesPath K r tgt = Inr True" for r
      using that Some v by (simp add: registered_by_def)
    have "\<exists>entry \<in> set lg'. registered_by K tgt entry e" if e: "e \<in> set (stack it')" for e
    proof (cases "e \<in> set (stack it1)")
      case True
      then show ?thesis by (rule old)
    next
      case False
      with e it' tg1 obtain r where "r \<in> set (Roles dl)" "MatchesPath K r tgt = Inr True"
        "e = \<lparr>delegator = Name (delegatee d), verifier = v, delegatee = r\<rparr>"
        by auto
      with new [of r] lg' show ?thesis by auto
    qed
    with it' tg1 vis1 show ?thesis by simp
  qed
  from lg' have "lg' \<noteq> []" by simp
  with li ok' rest show ?thesis by (simp add: loop_inv_def)
qed

lemma loop_inv_outcome:
  assumes inv: "loop_inv K tgt (it, c, lg)"
  shows "outcome_inv K tgt (Inl err, c', lg)"
proof -
  from inv have "log_inv K tgt lg"
    and ok: "\<forall>entry \<in> set lg. \<exists>T. snd entry = Inr T \<and> Targets T tgt = None"
    by (simp_all add: loop_inv_def)
  moreover have "lg = [] \<or> (case snd (last lg) of Inl err' \<Rightarrow> err' = err | Inr T \<Rightarrow> Targets T tgt = None)"
  proof (cases "lg = []")
    case False
    then have "last lg \<in> set lg" by simp
    with ok obtain T where "snd (last lg) = Inr T" "Targets T tgt = None" by blast
    then show ?thesis by simp
  qed simp
  ultimately show ?thesis by (simp add: outcome_inv_def)
qed

lemma loop_inv_return:
  assumes inv: "loop_inv K tgt (it, c, lg)"
    and it: "iteration K snapshot tgt (it, c, lg) = Return (r, c', lg')"
  shows "outcome_inv K tgt (r, c', lg')"
proof -
  from iteration_Return [OF it] show ?thesis
  proof (elim disjE exE conjE)
    fix it1
    assume "r = Inl (ErrUnknownTarget tgt (Version snapshot))" "lg' = lg"
    with loop_inv_outcome [OF inv] show ?thesis by simp
  next
    fix d it1 lr
    assume nx: "next_it it = (Some d, it1)" and lg': "lg' = lg @ [(d, lr)]"
      and r: "case lr of
                  Inl err \<Rightarrow> r = Inl err
                | Inr T \<Rightarrow>
                    (case Targets T tgt of
                       Some m \<Rightarrow> r = Inr m
                     | None \<Rightarrow> (\<exists>dl. Delegations T = Some dl
                          \<and> (case NewDelegationsVerifier K dl of
                                Inl err \<Rightarrow> r = Inl (External err)
                              | Inr v \<Rightarrow> (\<exists>err. fst (add (MatchesPath K) it1 (Roles dl) (Name (delegatee d)) v) = Some err
                                    \<and> r = Inl (External err)))))"
    have li: "log_inv K tgt lg'" unfolding lg' by (rule log_inv_snoc [OF inv nx])
    have "case r of
            Inr m \<Rightarrow> lg' \<noteq> [] \<and> (\<exists>T. snd (last lg') = Inr T \<and> Targets T tgt = Some m)
          | Inl err \<Rightarrow>
              lg' = [] \<or> (case snd (last lg') of
                           Inl err' \<Rightarrow> err' = err
                         | Inr T \<Rightarrow> Targets T tgt = None)"
    proof (cases lr)
      case (Inl err)
      with r lg' show ?thesis by simp
    next
      case (Inr T)
      show ?thesis
      proof (cases "Targets T tgt")
        case (Some m)
        with r Inr lg' show ?thesis by simp
      next
        case None
        with r Inr obtain dl where dl: "Delegations T = Some dl"
          and r': "case NewDelegationsVerifier K dl of
                                Inl err \<Rightarrow> r = Inl (External err)
                              | Inr v \<Rightarrow> (\<exists>err. fst (add (MatchesPath K) it1 (Roles dl) (Name (delegatee d)) v) = Some err
                                    \<and> r = Inl (External err))"
          by auto
        from r' obtain err where "r = Inl (External err)"
          by (cases "NewDelegationsVerifier K dl") auto
        with None Inr lg' show ?thesis by simp
      qed
    qed
    with li show ?thesis by (simp add: outcome_inv_def)
  qed
qed

lemma delegations_loop_outcome:
  assumes "loop_inv K tgt st"
  shows "outcome_inv K tgt (delegations_loop K snapshot tgt i st)"
proof (rule delegations_loop_rule [where I = "\<lambda>i st. loop_inv K tgt st"])
  show "loop_inv K tgt st" by (rule assms)
next
  fix i st st'
  assume "loop_inv K tgt st" "iteration K snapshot tgt st = Continue st'"
  then show "loop_inv K tgt st'"
    by (cases st, cases st') (auto intro: loop_inv_step)
next
  fix i st r
  assume "loop_inv K tgt st" "iteration K snapshot tgt st = Return r"
  then show "outcome_inv K tgt r"
    by (cases st, cases r) (auto intro: loop_inv_return)
next
  fix i it c lg
  assume "loop_inv K tgt (it, c, lg)"
  then show "outcome_inv K tgt (Inl (ErrMaxDelegations tgt (MaxDelegations c) (Version snapshot)), c, lg)"
    by (rule loop_inv_outcome)
qed

lemma getTargetFileMeta_outcome: "outcome_inv K tgt (getTargetFileMeta K c tgt)"
proof (cases "loadLocalSnapshot K c")
  case (Pair r c1)
  show ?thesis
  proof (cases r)
    case (Inl err)
    with Pair show ?thesis
      by (simp add: getTargetFileMeta_def outcome_inv_def log_inv_def)
  next
    case (Inr snapshot)
    with Pair delegations_loop_outcome [OF loop_inv_init] show ?thesis
      by (simp add: getTargetFileMeta_def)
  qed
qed

lemmas ex_defs = ex_K_def ex_client_def ex_snapshot_def ex_remote_def ex_decode_def ex_targets_def
  ex_role_def ex_meta_def verify_and_decode_def ex_matches_snapshot_def

lemmas run_defs = getTargetFileMeta_def loadLocalSnapshot_def delegations_loop.simps iteration_def
    next_it.simps add_def newDelegationsIterator_def DelegatedRole_named_def
    loadDelegatedTargets_def

lemma getTargetFileMeta_log_inv: "log_inv K tgt (snd (snd (getTargetFileMeta K c tgt)))"
  using getTargetFileMeta_outcome [of K tgt c]
  by (cases "getTargetFileMeta K c tgt") (auto simp: outcome_inv_def)

lemma distinct_filter_two:
  assumes "distinct xs"
  shows "length (filter (\<lambda>n. n = a \<or> n = b) xs) \<le> 2"
proof -
  have "distinct (filter (\<lambda>n. n = a \<or> n = b) xs)" using assms by simp
  then have "length (filter (\<lambda>n. n = a \<or> n = b) xs) = card (set (filter (\<lambda>n. n = a \<or> n = b) xs))"
    by (rule distinct_card [symmetric])
  also have "\<dots> \<le> card {a, b}"
    by (rule card_mono) auto
  also have "\<dots> \<le> 2" by (simp add: card_insert_if)
  finally show ?thesis .
qed

lemma getTargetFileMeta_outcome_inv:
  assumes "getTargetFileMeta K c tgt = (r, c', lg)"
  shows "outcome_inv K tgt (r, c', lg)"
  using getTargetFileMeta_outcome [of K tgt c] assms by simp

lemma registered_byD:
  assumes "registered_by K tgt entry e"
  shows "\<exists>T dl v. snd entry = Inr T \<and> Delegations T = Some dl \<and> NewDelegationsVerifier K dl = Inr v
      \<and> delegator e = Name (delegatee (fst entry)) \<and> verifier e = v
      \<and> delegatee e \<in> set (Roles dl) \<and> MatchesPath K (delegatee e) tgt = Inr True"
proof (cases "snd entry")
  case (Inl err)
  with assms show ?thesis by (simp add: registered_by_def)
next
  case (Inr T)
  show ?thesis
  proof (cases "Delegations T")
    case None
    with assms Inr show ?thesis by (simp add: registered_by_def)
  next
    case (Some dl)
    with assms Inr show ?thesis
      by (cases "NewDelegationsVerifier K dl") (simp_all add: registered_by_def)
  qed
qed

lemma registered_by_matches:
  "registered_by K tgt entry e \<Longrightarrow> MatchesPath K (delegatee e) tgt = Inr True"
  by (blast dest: registered_byD)

lemma find_SomeD: "find P xs = Some x \<Longrightarrow> x \<in> set xs \<and> P x"
  by (induction xs) (auto split: if_splits)

lemma length_log_names [simp]: "length (log_names lg) = length lg"
  by (simp add: log_names_def)

lemma ex_local_self: "\<exists>l. c = c\<lparr>local := l\<rparr>"
  by (rule exI [of _ "local c"]) simp

lemma loadDelegatedTargets_client:
  assumes "loadDelegatedTargets K c snapshot role vf = (res, c')"
  shows "\<exists>l. c' = c\<lparr>local := l\<rparr>"
  using assms
  by (auto simp: loadDelegatedTargets_def Let_def ex_local_self
      split: option.splits prod.splits sum.splits if_splits)

lemma log_loads_snoc:
  assumes "log_loads K c1 snapshot lg"
  shows "log_loads K c1 snapshot
     (lg @ [(d, fst (loadDelegatedTargets K (c1\<lparr>local := l\<rparr>) snapshot (Name (delegatee d)) (verifier d)))])"
  unfolding log_loads_def
proof
  fix entry
  assume "entry \<in> set (lg @ [(d, fst (loadDelegatedTargets K (c1\<lparr>local := l\<rparr>) snapshot (Name (delegatee d)) (verifier d)))])"
  then consider "entry \<in> set lg"
    | "entry = (d, fst (loadDelegatedTargets K (c1\<lparr>local := l\<rparr>) snapshot (Name (delegatee d)) (verifier d)))"
    by auto
  then show "\<exists>l. snd entry = fst (loadDelegatedTargets K (c1\<lparr>local := l\<rparr>) snapshot
               (Name (delegatee (fst entry))) (verifier (fst entry)))"
  proof cases
    case 1
    with assms show ?thesis by (simp add: log_loads_def)
  next
    case 2
    then show ?thesis by (intro exI [of _ l]) simp
  qed
qed

lemma iteration_loads:
  assumes "iteration K snapshot tgt (it, c, lg) = fl"
    and "fl = Continue (it', c', lg') \<or> fl = Return (r, c', lg')"
  shows "(\<exists>l. c' = c\<lparr>local := l\<rparr>)
     \<and> (lg' = lg \<or> (\<exists>d. lg' = lg @ [(d, fst (loadDelegatedTargets K c snapshot (Name (delegatee d)) (verifier d)))]))"
proof -
  have c: "c = c\<lparr>local := local c\<rparr>" by simp
  from assms(2) show ?thesis
  proof
    assume "fl = Continue (it', c', lg')"
    with assms(1) iteration_Continue [of K snapshot tgt it c lg it' c' lg']
    obtain d T where l: "loadDelegatedTargets K c snapshot (Name (delegatee d)) (verifier d) = (Inr T, c')"
      and "lg' = lg @ [(d, Inr T)]" by auto
    with loadDelegatedTargets_client [OF l] show ?thesis by auto
  next
    assume "fl = Return (r, c', lg')"
    with assms(1) iteration_Return [of K snapshot tgt it c lg r c' lg']
    consider "c' = c" "lg' = lg"
      | d lr where "loadDelegatedTargets K c snapshot (Name (delegatee d)) (verifier d) = (lr, c')"
          "lg' = lg @ [(d, lr)]"
      by auto
    then show ?thesis
    proof cases
      case 1
      with ex_local_self [of c] show ?thesis by simp
    next
      case 2
      with loadDelegatedTargets_client [OF 2(1)] show ?thesis by auto
    qed
  qed
qed

lemma delegations_loop_loads:
  assumes "delegations_loop K snapshot tgt i (it, c1\<lparr>local := l0\<rparr>, lg) = (r, c', lg')"
    and "log_loads K c1 snapshot lg"
  shows "log_loads K c1 snapshot lg'"
proof -
  let ?I = "\<lambda>(i :: int) st.
      (\<exists>l. fst (snd st) = c1\<lparr>local := l\<rparr>) \<and> log_loads K c1 snapshot (snd (snd st))"
  have "log_loads K c1 snapshot (snd (snd (delegations_loop K snapshot tgt i (it, c1\<lparr>local := l0\<rparr>, lg))))"
  proof (rule delegations_loop_rule [where I = ?I
        and Q = "\<lambda>out. log_loads K c1 snapshot (snd (snd out))"])
    show "?I i (it, c1\<lparr>local := l0\<rparr>, lg)" using assms(2) by auto
  next
    fix i st st'
    assume I: "?I i st" and it: "iteration K snapshot tgt st = Continue st'"
    obtain it0 c0 lg0 where st: "st = (it0, c0, lg0)" by (cases st) auto
    obtain it' c' lg' where st': "st' = (it', c', lg')" by (cases st') auto
    from I st obtain l where c0: "c0 = c1\<lparr>local := l\<rparr>" and ll: "log_loads K c1 snapshot lg0" by auto
    from iteration_loads [of K snapshot tgt it0 c0 lg0 "Continue st'" it' c' lg'] it st st'
    have "\<exists>l. c' = c0\<lparr>local := l\<rparr>"
      and "lg' = lg0 \<or> (\<exists>d. lg' = lg0 @ [(d, fst (loadDelegatedTargets K c0 snapshot (Name (delegatee d)) (verifier d)))])"
      by auto
    with c0 ll st' show "?I (i + 1) st'"
      by (auto intro: log_loads_snoc)
  next
    fix i st out
    assume I: "?I i st" and it: "iteration K snapshot tgt st = Return out"
    obtain it0 c0 lg0 where st: "st = (it0, c0, lg0)" by (cases st) auto
    obtain r c' lg' where out: "out = (r, c', lg')" by (cases out) auto
    from I st obtain l where c0: "c0 = c1\<lparr>local := l\<rparr>" and ll: "log_loads K c1 snapshot lg0" by auto
    from iteration_loads [of K snapshot tgt it0 c0 lg0 "Return out" undefined c' lg' r] it st out
    have "lg' = lg0 \<or> (\<exists>d. lg' = lg0 @ [(d, fst (loadDelegatedTargets K c0 snapshot (Name (delegatee d)) (verifier d)))])"
      by auto
    with c0 ll out show "log_loads K c1 snapshot (snd (snd out))"
      by (auto intro: log_loads_snoc)
  next
    fix i it c lg
    assume "?I i (it, c, lg)"
    then show "log_loads K c1 snapshot (snd (snd (Inl (ErrMaxDelegations tgt (MaxDelegations c) (Version snapshot)), c, lg)))"
      by simp
  qed
  with assms(1) show ?thesis by simp
qed

lemma getTargetFileMeta_loads:
  assumes "getTargetFileMeta K c tgt = (r, c', lg)"
    and "loadLocalSnapshot K c = (sr, c1)"
  shows "lg = [] \<or> (\<exists>snapshot. sr = Inr snapshot \<and> log_loads K c1 snapshot lg)"
proof (cases sr)
  case (Inl err)
  with assms show ?thesis by (simp add: getTargetFileMeta_def)
next
  case (Inr snapshot)
  have c1: "c1 = c1\<lparr>local := local c1\<rparr>" by simp
  from assms Inr have "delegations_loop K snapshot tgt 0
      (newDelegationsIterator (zeroVerifier K) tgt, c1, []) = (r, c', lg)"
    by (simp add: getTargetFileMeta_def)
  with c1 have "delegations_loop K snapshot tgt 0
      (newDelegationsIterator (zeroVerifier K) tgt, c1\<lparr>local := local c1\<rparr>, []) = (r, c', lg)"
    by simp
  from delegations_loop_loads [OF this] Inr show ?thesis by (simp add: log_loads_def)
qed

lemma log_inv_not_targets:
  assumes "log_inv K tgt lg" and "i < length lg" and "0 < i"
  shows "Name (delegatee (fst (lg ! i))) \<noteq> ''targets''"
proof
  assume eq: "Name (delegatee (fst (lg ! i))) = ''targets''"
  from assms have d: "distinct (log_names lg)" and h: "fst (hd lg) = seed_edge (zeroVerifier K)"
    by (auto simp: log_inv_def)
  from assms(2) have ne: "lg \<noteq> []" and len0: "0 < length lg" by auto
  then have "hd lg = lg ! 0" by (simp add: hd_conv_nth)
  with h have "Name (delegatee (fst (lg ! 0))) = ''targets''"
    by (simp add: seed_edge_def DelegatedRole_named_def)
  with eq assms(2) len0 have "log_names lg ! i = log_names lg ! 0"
    by (simp add: log_names_def)
  with nth_eq_iff_index_eq [OF d, of i 0] assms(2) len0 have "i = 0" by simp
  with assms(3) show False by simp
qed

lemma loadDelegatedTargets_error:
  assumes "loadDelegatedTargets K c snapshot role vf = (Inl e, c')"
  shows "e = ErrRoleNotInSnapshot role (Version snapshot) \<or> (\<exists>x. e = External x)
     \<or> (\<exists>x. e = ErrDecodeFailed (role @ ''.json'') x)"
  using assms
  by (auto simp: loadDelegatedTargets_def Let_def
      split: option.splits prod.splits sum.splits if_splits)

lemma iteration_Return_unknown:
  assumes "iteration K snapshot tgt st = Return out"
  shows "fst out = Inl (ErrUnknownTarget t v) \<longleftrightarrow>
     t = tgt \<and> v = Version snapshot \<and> fst (next_it (fst st)) = None"
proof -
  obtain it c lg where st: "st = (it, c, lg)" by (cases st) auto
  obtain r c' lg' where out: "out = (r, c', lg')" by (cases out) auto
  from iteration_Return [of K snapshot tgt it c lg r c' lg'] assms st out
  consider it1 where "next_it it = (None, it1)" "r = Inl (ErrUnknownTarget tgt (Version snapshot))"
    | d it1 lr where "next_it it = (Some d, it1)"
        "loadDelegatedTargets K c snapshot (Name (delegatee d)) (verifier d) = (lr, c')"
        "case lr of
                  Inl err \<Rightarrow> r = Inl err
                | Inr T \<Rightarrow>
                    (case Targets T tgt of
                       Some m \<Rightarrow> r = Inr m
                     | None \<Rightarrow> (\<exists>dl. Delegations T = Some dl
                          \<and> (case NewDelegationsVerifier K dl of
                                Inl err \<Rightarrow> r = Inl (External err)
                              | Inr v \<Rightarrow> (\<exists>err. fst (add (MatchesPath K) it1 (Roles dl) (Name (delegatee d)) v) = Some err
                                    \<and> r = Inl (External err)))))"
    by auto
  then show ?thesis
  proof cases
    case 1
    with st out show ?thesis by auto
  next
    case 2
    have "r \<noteq> Inl (ErrUnknownTarget t v)"
    proof (cases lr)
      case (Inl err)
      with 2(2) loadDelegatedTargets_error [of K c snapshot "Name (delegatee d)" "verifier d" err c']
      have "err \<noteq> ErrUnknownTarget t v" by auto
      with 2(3) Inl show ?thesis by simp
    next
      case (Inr T)
      show ?thesis
      proof (cases "Targets T tgt")
        case (Some m)
        with 2(3) Inr show ?thesis by simp
      next
        case None
        with 2(3) Inr obtain dl where "case NewDelegationsVerifier K dl of
                                Inl err \<Rightarrow> r = Inl (External err)
                              | Inr v \<Rightarrow> (\<exists>err. fst (add (MatchesPath K) it1 (Roles dl) (Name (delegatee d)) v) = Some err
                                    \<and> r = Inl (External err))"
          by auto
        then show ?thesis by (cases "NewDelegationsVerifier K dl") auto
      qed
    qed
    with 2(1) st out show ?thesis by simp
  qed
qed

lemma iteration_Return_not_max:
  assumes "iteration K snapshot tgt st = Return out"
  shows "fst out \<noteq> Inl (ErrMaxDelegations t m v)"
proof -
  obtain it c lg where st: "st = (it, c, lg)" by (cases st) auto
  obtain r c' lg' where out: "out = (r, c', lg')" by (cases out) auto
  from iteration_Return [of K snapshot tgt it c lg r c' lg'] assms st out
  consider it1 where "next_it it = (None, it1)" "r = Inl (ErrUnknownTarget tgt (Version snapshot))"
    | d it1 lr where "next_it it = (Some d, it1)"
        "loadDelegatedTargets K c snapshot (Name (delegatee d)) (verifier d) = (lr, c')"
        "case lr of
                  Inl err \<Rightarrow> r = Inl err
                | Inr T \<Rightarrow>
                    (case Targets T tgt of
                       Some m \<Rightarrow> r = Inr m
                     | None \<Rightarrow> (\<exists>dl. Delegations T = Some dl
                          \<and> (case NewDelegationsVerifier K dl of
                                Inl err \<Rightarrow> r = Inl (External err)
                              | Inr v \<Rightarrow> (\<exists>err. fst (add (MatchesPath K) it1 (Roles dl) (Name (delegatee d)) v) = Some err
                                    \<and> r = Inl (External err)))))"
    by auto
  then have "r \<noteq> Inl (ErrMaxDelegations t m v)"
  proof cases
    case 1
    then show ?thesis by simp
  next
    case 2
    show ?thesis
    proof (cases lr)
      case (Inl err)
      with 2(2) loadDelegatedTargets_error [of K c snapshot "Name (delegatee d)" "verifier d" err c']
      have "err \<noteq> ErrMaxDelegations t m v" by auto
      with 2(3) Inl show ?thesis by simp
    next
      case (Inr T)
      show ?thesis
      proof (cases "Targets T tgt")
        case (Some m)
        with 2(3) Inr show ?thesis by simp
      next
        case None
        with 2(3) Inr obtain dl where "case NewDelegationsVerifier K dl of
                                Inl err \<Rightarrow> r = Inl (External err)
                              | Inr v \<Rightarrow> (\<exists>err. fst (add (MatchesPath K) it1 (Roles dl) (Name (delegatee d)) v) = Some err
                                    \<and> r = Inl (External err))"
          by auto
        then show ?thesis by (cases "NewDelegationsVerifier K dl") auto
      qed
    qed
  qed
  with out show ?thesis by simp
qed

lemma iteration_Continue_next:
  assumes "iteration K snapshot tgt st = Continue st'"
  shows "fst (next_it (fst st)) \<noteq> None" and "MaxDelegations (fst (snd st')) = MaxDelegations (fst (snd st))"
proof -
  obtain it c lg where st: "st = (it, c, lg)" by (cases st) auto
  obtain it' c' lg' where st': "st' = (it', c', lg')" by (cases st') auto
  from iteration_Continue [of K snapshot tgt it c lg it' c' lg'] assms st st'
  show "fst (next_it (fst st)) \<noteq> None" by auto
  from iteration_MaxDelegations [of K snapshot tgt it c lg it' c' lg'] assms st st'
  show "MaxDelegations (fst (snd st')) = MaxDelegations (fst (snd st))" by simp
qed

lemma delegations_loop_unknown:
  "fst (delegations_loop K snapshot tgt i st) = Inl (ErrUnknownTarget t v) \<longleftrightarrow>
     t = tgt \<and> v = Version snapshot
     \<and> (\<exists>k st'. i + int k < MaxDelegations (fst (snd st))
           \<and> passes K snapshot tgt k st = Some st' \<and> fst (next_it (fst st')) = None)"
proof (induction n \<equiv> "nat (MaxDelegations (fst (snd st)) - i)" arbitrary: i st)
  case 0
  obtain it c lg where st: "st = (it, c, lg)" by (cases st) auto
  with 0 have ge: "\<not> i < MaxDelegations c" by simp
  then have "\<not> (\<exists>k. i + int k < MaxDelegations c)" by auto
  with ge st show ?case
    by (simp add: delegations_loop.simps [of K snapshot tgt i it c lg])
next
  case (Suc n)
  obtain it c lg where st: "st = (it, c, lg)" by (cases st) auto
  with Suc(2) have lt: "i < MaxDelegations c" by simp
  let ?R = "\<lambda>i st. \<exists>k st'. i + int k < MaxDelegations (fst (snd st))
           \<and> passes K snapshot tgt k st = Some st' \<and> fst (next_it (fst st')) = None"
  show ?case
  proof (cases "iteration K snapshot tgt st")
    case (Return out)
    have "?R i st \<longleftrightarrow> fst (next_it (fst st)) = None"
    proof
      assume "?R i st"
      then obtain k st' where k: "passes K snapshot tgt k st = Some st'" "fst (next_it (fst st')) = None"
        by blast
      with Return show "fst (next_it (fst st)) = None" by (cases k) auto
    next
      assume "fst (next_it (fst st)) = None"
      with lt st have "i + int 0 < MaxDelegations (fst (snd st))
           \<and> passes K snapshot tgt 0 st = Some st \<and> fst (next_it (fst st)) = None" by simp
      then show "?R i st" by blast
    qed
    with iteration_Return_unknown [OF Return, of t v] Return lt st show ?thesis
      by (simp add: delegations_loop.simps [of K snapshot tgt i it c lg])
  next
    case (Continue st1)
    from iteration_Continue_next [OF Continue]
    have nn: "fst (next_it (fst st)) \<noteq> None"
      and M: "MaxDelegations (fst (snd st1)) = MaxDelegations (fst (snd st))" .
    with Suc(2) have n: "n = nat (MaxDelegations (fst (snd st1)) - (i + 1))" by simp
    have "?R i st \<longleftrightarrow> ?R (i + 1) st1"
    proof
      assume "?R i st"
      then obtain k st' where k: "i + int k < MaxDelegations (fst (snd st))"
        "passes K snapshot tgt k st = Some st'" "fst (next_it (fst st')) = None"
        by blast
      show "?R (i + 1) st1"
      proof (cases k)
        case 0
        with k nn show ?thesis by simp
      next
        case (Suc k')
        with k Continue M have "i + 1 + int k' < MaxDelegations (fst (snd st1))
           \<and> passes K snapshot tgt k' st1 = Some st' \<and> fst (next_it (fst st')) = None"
          by simp
        then show ?thesis by blast
      qed
    next
      assume "?R (i + 1) st1"
      then obtain k st' where k: "i + 1 + int k < MaxDelegations (fst (snd st1))"
        "passes K snapshot tgt k st1 = Some st'" "fst (next_it (fst st')) = None"
        by blast
      with Continue M have "i + int (Suc k) < MaxDelegations (fst (snd st))
           \<and> passes K snapshot tgt (Suc k) st = Some st' \<and> fst (next_it (fst st')) = None"
        by simp
      then show "?R i st" by blast
    qed
    with Suc(1) [OF n] Continue lt st show ?thesis
      by (simp add: delegations_loop.simps [of K snapshot tgt i it c lg])
  qed
qed

lemma delegations_loop_max:
  "fst (delegations_loop K snapshot tgt i st) = Inl (ErrMaxDelegations t m v) \<longleftrightarrow>
     t = tgt \<and> m = MaxDelegations (fst (snd st)) \<and> v = Version snapshot
     \<and> (\<exists>st'. passes K snapshot tgt (nat (MaxDelegations (fst (snd st)) - i)) st = Some st')"
proof (induction n \<equiv> "nat (MaxDelegations (fst (snd st)) - i)" arbitrary: i st)
  case 0
  obtain it c lg where st: "st = (it, c, lg)" by (cases st) auto
  with 0 have ge: "\<not> i < MaxDelegations c" by simp
  with 0 [symmetric] st show ?case
    by (auto simp: delegations_loop.simps [of K snapshot tgt i it c lg])
next
  case (Suc n)
  obtain it c lg where st: "st = (it, c, lg)" by (cases st) auto
  with Suc(2) have lt: "i < MaxDelegations c" by simp
  show ?case
  proof (cases "iteration K snapshot tgt st")
    case (Return out)
    with iteration_Return_not_max [OF Return, of t m v] Suc(2) [symmetric] lt st show ?thesis
      by (simp add: delegations_loop.simps [of K snapshot tgt i it c lg])
  next
    case (Continue st1)
    from iteration_Continue_next [OF Continue]
    have M: "MaxDelegations (fst (snd st1)) = MaxDelegations (fst (snd st))" by simp
    with Suc(2) have n: "n = nat (MaxDelegations (fst (snd st1)) - (i + 1))" by simp
    from Suc(1) [OF n] Continue lt st M Suc(2) [symmetric] n [symmetric] show ?thesis
      by (simp add: delegations_loop.simps [of K snapshot tgt i it c lg])
  qed
qed

section \<open>Properties of the traversals\<close>

lemma add_stack_subset:
  "set (stack (snd (add mp d roles dlg vf))) \<subseteq>
     set (stack d) \<union> set (map (\<lambda>r. \<lparr>delegator = dlg, verifier = vf, delegatee = r\<rparr>)
       (filter (\<lambda>r. mp r (target d) = Inr True) roles))"
  by (auto simp: add_eq dest: set_takeWhileD)

lemma add_target: "target (snd (add mp d roles dlg vf)) = target d"
  by (simp add: add_eq)

lemma run_ops_subset:
  "set (run_ops mp ops d) \<subseteq> set (stack d) \<union> set (pushed_by mp (target d) ops)"
proof (induction ops arbitrary: d)
  case Nil
  show ?case by simp
next
  case (Cons op ops)
  show ?case
  proof (cases op)
    case Next
    show ?thesis
    proof (cases "next_it d")
      case (Pair r d')
      note IH = Cons.IH [of d']
      show ?thesis
      proof (cases r)
        case None
        with Pair next_it_None(1) [of d d'] have d': "d' = d\<lparr>stack := []\<rparr>" by simp
        with IH Pair None Next show ?thesis by auto
      next
        case (Some e)
        with Pair next_it_Some [of d e d'] obtain below above where
          st: "stack d = below @ e # above"
          and d': "d' = d\<lparr>stack := (if Terminating (delegatee e) then [] else below),
                       visitedRoles := insert (Name (delegatee e)) (visitedRoles d)\<rparr>"
          by auto
        from d' st have "set (stack d') \<subseteq> set (stack d)" "target d' = target d" by auto
        with IH have "set (run_ops mp ops d') \<subseteq> set (stack d) \<union> set (pushed_by mp (target d) ops)"
          by auto
        with st Pair Some Next show ?thesis by auto
      qed
    qed
  next
    case (Add roles dlg vf)
    let ?d' = "snd (add mp d roles dlg vf)"
    from Cons.IH [of ?d']
    have "set (run_ops mp ops ?d') \<subseteq> set (stack ?d') \<union> set (pushed_by mp (target ?d') ops)" .
    with add_stack_subset [of mp d roles dlg vf] add_target [of mp d roles dlg vf] Add
    show ?thesis by auto
  qed
qed

lemma traverse_skip:
  assumes "Name (delegatee e) \<in> V"
  shows "traverse mp g n \<lparr>stack = s @ [e], target = tgt, visitedRoles = V\<rparr>
       = traverse mp g n \<lparr>stack = s, target = tgt, visitedRoles = V\<rparr>"
proof (cases n)
  case 0
  then show ?thesis by simp
next
  case (Suc m)
  from assms next_it_snoc [where d = "\<lparr>stack = s, target = tgt, visitedRoles = V\<rparr>" and s = s and e = e]
  have "next_it \<lparr>stack = s @ [e], target = tgt, visitedRoles = V\<rparr>
      = next_it \<lparr>stack = s, target = tgt, visitedRoles = V\<rparr>" by simp
  with Suc show ?thesis by simp
qed

lemma traverse_skip_all:
  assumes "\<forall>e \<in> set es. Name (delegatee e) \<in> V"
  shows "traverse mp g n \<lparr>stack = s @ rev es, target = tgt, visitedRoles = V\<rparr>
       = traverse mp g n \<lparr>stack = s, target = tgt, visitedRoles = V\<rparr>"
  using assms
proof (induction es arbitrary: s)
  case Nil
  show ?case by simp
next
  case (Cons e es)
  from Cons.prems have e: "Name (delegatee e) \<in> V" by simp
  have "traverse mp g n \<lparr>stack = (s @ rev es) @ [e], target = tgt, visitedRoles = V\<rparr>
       = traverse mp g n \<lparr>stack = s @ rev es, target = tgt, visitedRoles = V\<rparr>"
    by (rule traverse_skip [OF e])
  with Cons show ?case by simp
qed

lemma add_children:
  assumes "\<forall>r \<in> set (fst (g e)). \<not> isl (mp r tgt)"
  shows "add mp \<lparr>stack = s, target = tgt, visitedRoles = V\<rparr> (fst (g e)) (Name (delegatee e)) (snd (g e))
       = (None, \<lparr>stack = s @ rev (children mp g tgt e), target = tgt, visitedRoles = V\<rparr>)"
proof -
  let ?d = "\<lparr>stack = s, target = tgt, visitedRoles = V\<rparr>"
  obtain err d' where a: "add mp ?d (fst (g e)) (Name (delegatee e)) (snd (g e)) = (err, d')"
    by (cases "add mp ?d (fst (g e)) (Name (delegatee e)) (snd (g e))") auto
  from assms add_error_iff [of mp ?d "fst (g e)" "Name (delegatee e)" "snd (g e)"] a
  have "err = None" by auto
  with a add_None [of mp ?d "fst (g e)" "Name (delegatee e)" "snd (g e)" d']
  show ?thesis by (simp add: children_def)
qed

lemma traverse_fresh:
  assumes "Name (delegatee e) \<notin> V" and "\<forall>r \<in> set (fst (g e)). \<not> isl (mp r tgt)"
  shows "traverse mp g (Suc n) \<lparr>stack = s @ [e], target = tgt, visitedRoles = V\<rparr>
       = e # traverse mp g n
           \<lparr>stack = (if Terminating (delegatee e) then [] else s) @ rev (children mp g tgt e),
            target = tgt, visitedRoles = insert (Name (delegatee e)) V\<rparr>"
proof -
  from assms(1) next_it_snoc [where d = "\<lparr>stack = s, target = tgt, visitedRoles = V\<rparr>" and s = s and e = e]
  have "next_it \<lparr>stack = s @ [e], target = tgt, visitedRoles = V\<rparr>
      = (Some e, \<lparr>stack = (if Terminating (delegatee e) then [] else s), target = tgt,
                  visitedRoles = insert (Name (delegatee e)) V\<rparr>)" by simp
  with add_children [where g = g and e = e and mp = mp and tgt = tgt, OF assms(2)]
  show ?thesis by simp
qed

lemma preorder_traverse:
  "preorder k (children mp g tgt) V es = Some (V', stop, tr) \<Longrightarrow>
   \<forall>e \<in> set tr. \<forall>r \<in> set (fst (g e)). \<not> isl (mp r tgt) \<Longrightarrow>
     traverse mp g (length tr + n) \<lparr>stack = rest @ rev es, target = tgt, visitedRoles = V\<rparr>
       = tr @ traverse mp g n \<lparr>stack = (if stop then [] else rest), target = tgt, visitedRoles = V'\<rparr>"
proof (induction k arbitrary: V es V' stop tr n rest)
  case 0
  then show ?case by simp
next
  case (Suc k)
  note noerr = Suc.prems(2)
  show ?case
  proof (cases es)
    case Nil
    with Suc.prems show ?thesis by simp
  next
    case (Cons e es')
    show ?thesis
    proof (cases "Name (delegatee e) \<in> V")
      case True
      with Suc.prems Cons have "preorder k (children mp g tgt) V es' = Some (V', stop, tr)" by simp
      from Suc.IH [OF this noerr, of n rest]
        traverse_skip [OF True, where mp = mp and g = g and s = "rest @ rev es'" and tgt = tgt] Cons
      show ?thesis by simp
    next
      case False
      let ?V0 = "insert (Name (delegatee e)) V"
      let ?rest1 = "(if Terminating (delegatee e) then [] else rest @ rev es')"
      from Suc.prems Cons False obtain V1 stop1 tr1 where
        c: "preorder k (children mp g tgt) ?V0 (children mp g tgt e) = Some (V1, stop1, tr1)"
        by (auto split: option.splits)
      from Suc.prems(1) Cons False c have "e \<in> set tr" and sub1: "set tr1 \<subseteq> set tr"
        by (auto split: option.splits if_splits)
      with noerr have ne: "\<forall>r \<in> set (fst (g e)). \<not> isl (mp r tgt)"
        and ne1: "\<forall>e \<in> set tr1. \<forall>r \<in> set (fst (g e)). \<not> isl (mp r tgt)" by auto
      have step: "traverse mp g (Suc m) \<lparr>stack = rest @ rev es, target = tgt, visitedRoles = V\<rparr>
          = e # traverse mp g m \<lparr>stack = ?rest1 @ rev (children mp g tgt e), target = tgt, visitedRoles = ?V0\<rparr>" for m
        using traverse_fresh [where g = g and e = e and mp = mp and tgt = tgt and V = V and n = m
            and s = "rest @ rev es'", OF False ne] Cons by simp
      show ?thesis
      proof (cases "Terminating (delegatee e) \<or> stop1")
        case True
        with Suc.prems Cons False c have r: "V' = V1" "stop = True" "tr = e # tr1" by auto
        from True have "(if stop1 then [] else ?rest1) = []" by auto
        with Suc.IH [OF c ne1, of n ?rest1] r step [of "length tr1 + n"] show ?thesis by simp
      next
        case nt: False
        with Suc.prems Cons False c obtain tr2 where
          s: "preorder k (children mp g tgt) V1 es' = Some (V', stop, tr2)" and tr: "tr = e # tr1 @ tr2"
          by (auto split: option.splits)
        from tr noerr have ne2: "\<forall>e \<in> set tr2. \<forall>r \<in> set (fst (g e)). \<not> isl (mp r tgt)" by auto
        from nt have r1: "(if stop1 then [] else ?rest1) = rest @ rev es'" by auto
        from Suc.IH [OF c ne1, of "length tr2 + n" ?rest1] r1
        have "traverse mp g (length tr1 + (length tr2 + n))
                \<lparr>stack = ?rest1 @ rev (children mp g tgt e), target = tgt, visitedRoles = ?V0\<rparr>
            = tr1 @ traverse mp g (length tr2 + n) \<lparr>stack = rest @ rev es', target = tgt, visitedRoles = V1\<rparr>"
          by simp
        with Suc.IH [OF s ne2, of n rest] step [of "length tr1 + (length tr2 + n)"] tr
        show ?thesis by (simp add: add.assoc)
      qed
    qed
  qed
qed

lemma traverse_exhausted: "traverse mp g n \<lparr>stack = [], target = tgt, visitedRoles = V\<rparr> = []"
  by (cases n) (simp_all add: next_it_Nil)

lemma traverse_take: "traverse mp g m d = take m (traverse mp g (m + n) d)"
proof (induction m arbitrary: d)
  case 0
  show ?case by simp
next
  case (Suc m)
  show ?case
    by (simp add: Suc.IH [symmetric] split: prod.splits option.splits)
qed


lemma preorder_traverse_new:
  assumes "preorder k (children mp g tgt) {} [seed_edge zv] = Some (V, stop, tr)"
    and "\<forall>e \<in> set tr. \<forall>r \<in> set (fst (g e)). \<not> isl (mp r tgt)"
  shows "traverse mp g m (newDelegationsIterator zv tgt) = take m tr"
proof -
  have d: "newDelegationsIterator zv tgt = \<lparr>stack = [] @ rev [seed_edge zv], target = tgt, visitedRoles = {}\<rparr>"
    by (simp add: newDelegationsIterator_def seed_edge_def)
  from preorder_traverse [OF assms, of m "[]"]
  have "traverse mp g (length tr + m) (newDelegationsIterator zv tgt) = tr"
    unfolding d by (simp add: traverse_exhausted)
  with traverse_take [of mp g m "newDelegationsIterator zv tgt" "length tr"]
  show ?thesis by (simp add: add.commute)
qed

lemma add_Nil: "add mp d [] dlg vf = (None, d)"
  by (simp add: add_def)

lemma delegations_loop_traverse:
  assumes static: "\<forall>l role vf. fst (loadDelegatedTargets K (c1\<lparr>local := l\<rparr>) snapshot role vf) = L role vf"
  shows "\<exists>m. map fst (snd (snd (delegations_loop K snapshot tgt i (it, c1\<lparr>local := l\<rparr>, lg))))
      = map fst lg @ take m (traverse (MatchesPath K) (graph_of K L) (nat (MaxDelegations c1 - i)) it)"
proof (induction n \<equiv> "nat (MaxDelegations c1 - i)" arbitrary: i it l lg)
  case 0
  then have "\<not> i < MaxDelegations (c1\<lparr>local := l\<rparr>)" by simp
  then have "snd (snd (delegations_loop K snapshot tgt i (it, c1\<lparr>local := l\<rparr>, lg))) = lg"
    by (simp add: delegations_loop.simps [of K snapshot tgt i it "c1\<lparr>local := l\<rparr>" lg])
  then show ?case by (intro exI [of _ 0]) simp
next
  case (Suc n)
  let ?c = "c1\<lparr>local := l\<rparr>"
  from Suc(2) have lt: "i < MaxDelegations ?c" by simp
  show ?case
  proof (cases "iteration K snapshot tgt (it, ?c, lg)")
    case (Return out)
    obtain r c' lg' where out: "out = (r, c', lg')" by (cases out) auto
    from lt Return out
    have lp: "snd (snd (delegations_loop K snapshot tgt i (it, ?c, lg))) = lg'"
      by (simp add: delegations_loop.simps [of K snapshot tgt i it ?c lg])
    from iteration_Return [of K snapshot tgt it ?c lg r c' lg'] Return out
    consider "lg' = lg" | d it1 lr where "next_it it = (Some d, it1)" "lg' = lg @ [(d, lr)]"
      by auto
    then show ?thesis
    proof cases
      case 1
      with lp show ?thesis by (intro exI [of _ 0]) simp
    next
      case 2
      with Suc(2) [symmetric] lp show ?thesis
        by (intro exI [of _ 1]) (simp split: prod.splits)
    qed
  next
    case (Continue st')
    obtain it' c' lg' where st': "st' = (it', c', lg')" by (cases st') auto
    from iteration_Continue [of K snapshot tgt it ?c lg it' c' lg'] Continue st'
    obtain d it1 T where nx: "next_it it = (Some d, it1)"
      and ld: "loadDelegatedTargets K ?c snapshot (Name (delegatee d)) (verifier d) = (Inr T, c')"
      and lg': "lg' = lg @ [(d, Inr T)]"
      and reg: "case Delegations T of
            None \<Rightarrow> it' = it1
          | Some dl \<Rightarrow> (\<exists>v. NewDelegationsVerifier K dl = Inr v
                \<and> add (MatchesPath K) it1 (Roles dl) (Name (delegatee d)) v = (None, it'))"
      by auto
    from loadDelegatedTargets_client [OF ld] obtain l' where c': "c' = c1\<lparr>local := l'\<rparr>" by auto
    from static ld have L: "L (Name (delegatee d)) (verifier d) = Inr T"
      by (metis fst_conv)
    have ad: "add (MatchesPath K) it1 (fst (graph_of K L d)) (Name (delegatee d)) (snd (graph_of K L d))
        = (None, it')"
    proof (cases "Delegations T")
      case None
      with reg L show ?thesis by (simp add: graph_of_def add_Nil)
    next
      case (Some dl)
      with reg L show ?thesis by (auto simp: graph_of_def)
    qed
    from Suc(2) have n: "n = nat (MaxDelegations c1 - (i + 1))" by simp
    from Suc(1) [OF n, of it' l' lg'] obtain m where
      m: "map fst (snd (snd (delegations_loop K snapshot tgt (i + 1) (it', c1\<lparr>local := l'\<rparr>, lg'))))
        = map fst lg' @ take m (traverse (MatchesPath K) (graph_of K L) (nat (MaxDelegations c1 - (i + 1))) it')"
      by blast
    from Suc(2) [symmetric] n [symmetric] nx ad
    have tr: "traverse (MatchesPath K) (graph_of K L) (nat (MaxDelegations c1 - i)) it
        = d # traverse (MatchesPath K) (graph_of K L) (nat (MaxDelegations c1 - (i + 1))) it'"
      by simp
    from lt Continue st' c'
    have "delegations_loop K snapshot tgt i (it, ?c, lg)
        = delegations_loop K snapshot tgt (i + 1) (it', c1\<lparr>local := l'\<rparr>, lg')"
      by (simp add: delegations_loop.simps [of K snapshot tgt i it ?c lg])
    with m lg' tr show ?thesis
      by (intro exI [of _ "Suc m"]) simp
  qed
qed

lemma ex_static:
  "\<forall>l role vf. fst (loadDelegatedTargets ex_K ((ex_client 10)\<lparr>local := l\<rparr>) ex_snapshot role vf) = ex_load role vf"
  by (simp add: ex_load_def loadDelegatedTargets_def ex_K_def ex_client_def Let_def
      split: option.splits sum.splits prod.splits)

lemma delegations_loop_bound:
  assumes "i \<le> int (length lg)"
    and "delegations_loop K snapshot tgt i (it, c, lg) = (res, c', lg')"
  shows "MaxDelegations c' = MaxDelegations c
     \<and> (res = Inl (ErrMaxDelegations t m v) \<longrightarrow> MaxDelegations c \<le> int (length lg'))"
proof -
  let ?I = "\<lambda>(i :: int) st. i \<le> int (length (snd (snd st))) \<and> MaxDelegations (fst (snd st)) = MaxDelegations c"
  let ?Q = "\<lambda>out. MaxDelegations (fst (snd out)) = MaxDelegations c
     \<and> (fst out = Inl (ErrMaxDelegations t m v) \<longrightarrow> MaxDelegations c \<le> int (length (snd (snd out))))"
  have "?Q (delegations_loop K snapshot tgt i (it, c, lg))"
  proof (rule delegations_loop_rule [where I = ?I and Q = ?Q])
    show "?I i (it, c, lg)" using assms(1) by simp
  next
    fix i st st'
    assume I: "?I i st" and it: "iteration K snapshot tgt st = Continue st'"
    obtain it0 c0 lg0 where st: "st = (it0, c0, lg0)" by (cases st) auto
    obtain it1 c1 lg1 where st': "st' = (it1, c1, lg1)" by (cases st') auto
    from iteration_Continue [of K snapshot tgt it0 c0 lg0 it1 c1 lg1] it st st'
    obtain d T where "lg1 = lg0 @ [(d, Inr T)]" by auto
    moreover from iteration_Continue_next(2) [OF it] st st'
    have "MaxDelegations c1 = MaxDelegations c0" by simp
    ultimately show "?I (i + 1) st'" using I st st' by simp
  next
    fix i st out
    assume I: "?I i st" and it: "iteration K snapshot tgt st = Return out"
    obtain it0 c0 lg0 where st: "st = (it0, c0, lg0)" by (cases st) auto
    obtain r c1 lg1 where out: "out = (r, c1, lg1)" by (cases out) auto
    from iteration_loads [of K snapshot tgt it0 c0 lg0 "Return out" undefined c1 lg1 r] it st out
    obtain l where "c1 = c0\<lparr>local := l\<rparr>" by auto
    with I st out iteration_Return_not_max [OF it, of t m v] show "?Q out" by simp
  next
    fix i it c0 lg0
    assume "?I i (it, c0, lg0)" "\<not> i < MaxDelegations c0"
    then show "?Q (Inl (ErrMaxDelegations tgt (MaxDelegations c0) (Version snapshot)), c0, lg0)"
      by simp
  qed
  with assms(2) show ?thesis by simp
qed

lemma loadLocalSnapshot_error:
  assumes "loadLocalSnapshot K c = (Inl err, c1)"
  shows "err \<noteq> ErrMaxDelegations t m v"
  using assms
  by (auto simp: loadLocalSnapshot_def split: prod.splits option.splits sum.splits)

lemma getTargetFileMeta_bound:
  assumes "getTargetFileMeta K c tgt = (Inl (ErrMaxDelegations t m v), c', lg)"
  shows "MaxDelegations c' \<le> int (length lg)"
proof (cases "loadLocalSnapshot K c")
  case (Pair sr c1)
  show ?thesis
  proof (cases sr)
    case (Inl err)
    with Pair assms loadLocalSnapshot_error [of K c err c1 t m v] show ?thesis
      by (simp add: getTargetFileMeta_def)
  next
    case (Inr snapshot)
    with Pair assms have "delegations_loop K snapshot tgt 0
        (newDelegationsIterator (zeroVerifier K) tgt, c1, []) = (Inl (ErrMaxDelegations t m v), c', lg)"
      by (simp add: getTargetFileMeta_def)
    from delegations_loop_bound [OF _ this, of t m v] show ?thesis by simp
  qed
qed

lemma loadDelegatedTargets_verified:
  assumes "loadDelegatedTargets K c snapshot role vf = (Inr T, c')"
  shows "\<exists>fileMeta raw. Meta snapshot (role @ ''.json'') = Some fileMeta
     \<and> loaded_bytes K c (role @ ''.json'') fileMeta raw
     \<and> (if role = ''targets''
         then dbUnmarshalTargets K (db c) raw role (FileVersion fileMeta)
         else verifierUnmarshal K vf raw role (FileVersion fileMeta)) = Inr T"
proof (cases "Meta snapshot (role @ ''.json'')")
  case None
  with assms show ?thesis by (simp add: loadDelegatedTargets_def)
next
  case (Some fileMeta)
  obtain raw0 stored where lm: "localMetaFromSnapshot K c (role @ ''.json'') fileMeta = (raw0, stored)"
    by (cases "localMetaFromSnapshot K c (role @ ''.json'') fileMeta") auto
  let ?bytes = "if \<not> stored then downloadMetaFromSnapshot K c (role @ ''.json'') fileMeta else Inr raw0"
  show ?thesis
  proof (cases ?bytes)
    case (Inl err)
    with assms Some lm show ?thesis by (simp add: loadDelegatedTargets_def)
  next
    case (Inr raw)
    with lm have lb: "loaded_bytes K c (role @ ''.json'') fileMeta raw"
      by (cases stored) (simp_all add: loaded_bytes_def)
    let ?u = "if role = ''targets''
         then dbUnmarshalTargets K (db c) raw role (FileVersion fileMeta)
         else verifierUnmarshal K vf raw role (FileVersion fileMeta)"
    show ?thesis
    proof (cases ?u)
      case (Inl err)
      with assms Some lm Inr show ?thesis by (simp add: loadDelegatedTargets_def)
    next
      case u: (Inr T')
      with assms Some lm Inr have "T' = T"
        by (simp add: loadDelegatedTargets_def split: if_splits prod.splits option.splits)
      with u Some lb show ?thesis by blast
    qed
  qed
qed

section \<open>The depth of next\<close>

text \<open>
  C9 (as amended). One call of \<^verbatim>\<open>next\<close> nests one frame more than there are
  consecutive already-visited edges on top of the stack: the skip is a self-call, and the
  depth grows with the number of duplicates skipped. It is bounded by the length of the
  stack plus one.
\<close>

theorem C9_next_depth:
  "next_depth d = Suc (length (takeWhile (\<lambda>e. Name (delegatee e) \<in> visitedRoles d) (rev (stack d))))
   \<and> next_depth d \<le> Suc (length (stack d))"
proof -
  have eq: "next_depth d =
      Suc (length (takeWhile (\<lambda>e. Name (delegatee e) \<in> visitedRoles d) (rev (stack d))))"
    using next_depth_stack [where d = d and s = "stack d"] by simp
  have "length (takeWhile (\<lambda>e. Name (delegatee e) \<in> visitedRoles d) (rev (stack d)))
      \<le> length (rev (stack d))"
    by (rule length_takeWhile_le)
  with eq show ?thesis by simp
qed

text \<open>
  C9 (as stated) fails: no constant bounds the depth of one call of \<^verbatim>\<open>next\<close>.
  A stack of \<open>c\<close> edges to an already-visited role costs \<open>c + 1\<close> frames: four
  frames for three such edges, one frame for none.
\<close>

theorem C9_counterexample:
  "next_depth \<lparr>stack = replicate 3 \<lparr>delegator = ''targets'', verifier = (), delegatee = DelegatedRole_named ''a''\<rparr>,
                 target = ''f'', visitedRoles = {''a''}\<rparr> = 4
   \<and> next_depth \<lparr>stack = [] :: unit delegation list, target = ''f'', visitedRoles = {''a''}\<rparr> = 1
   \<and> \<not> (\<exists>c. \<forall>d :: unit delegationsIterator. next_depth d \<le> c)"
proof -
  let ?e = "\<lparr>delegator = ''targets'', verifier = (), delegatee = DelegatedRole_named ''a''\<rparr>"
  have depth: "next_depth \<lparr>stack = replicate n ?e, target = ''f'', visitedRoles = {''a''}\<rparr> = Suc n" for n
    using next_depth_stack [where d = "\<lparr>stack = replicate n ?e, target = ''f'', visitedRoles = {''a''}\<rparr>"
        and s = "replicate n ?e"]
    by (simp add: DelegatedRole_named_def takeWhile_replicate)
  have "\<not> (\<exists>c. \<forall>d :: unit delegationsIterator. next_depth d \<le> c)"
  proof
    assume "\<exists>c. \<forall>d :: unit delegationsIterator. next_depth d \<le> c"
    then obtain c where bound: "\<And>d :: unit delegationsIterator. next_depth d \<le> c" by blast
    from bound [of "\<lparr>stack = replicate c ?e, target = ''f'', visitedRoles = {''a''}\<rparr>"] depth [of c]
    show False by simp
  qed
  with depth [of 3] depth [of 0] show ?thesis by simp
qed

section \<open>Loading a role\<close>

text \<open>
  C7. \<^verbatim>\<open>loadDelegatedTargets\<close> changes the client only by storing the bytes with
  \<^verbatim>\<open>SetMeta\<close>, and it does so exactly when the role is in the snapshot, the bytes
  were not already stored, the download succeeded and the bytes were verified and decoded.
  In every other case (role missing from the snapshot, bytes already stored, download
  failure, verification or decode failure) the client, with its local store, comes back
  as it was.
\<close>

theorem C7_persist_only_after_verification:
  assumes "loadDelegatedTargets K c snapshot role vf = (res, c')"
  shows "(c' = c \<or>
     (\<exists>fileMeta raw T.
        Meta snapshot (role @ ''.json'') = Some fileMeta
      \<and> snd (localMetaFromSnapshot K c (role @ ''.json'') fileMeta) = False
      \<and> downloadMetaFromSnapshot K c (role @ ''.json'') fileMeta = Inr raw
      \<and> (if role = ''targets''
          then dbUnmarshalTargets K (db c) raw role (FileVersion fileMeta)
          else verifierUnmarshal K vf raw role (FileVersion fileMeta)) = Inr T
      \<and> c' = c\<lparr>local := snd (SetMeta K (local c) (role @ ''.json'') raw)\<rparr>
      \<and> res = (case fst (SetMeta K (local c) (role @ ''.json'') raw) of
                 None \<Rightarrow> Inr T | Some err \<Rightarrow> Inl (External err))))
   \<and> (\<forall>fileMeta raw T.
        Meta snapshot (role @ ''.json'') = Some fileMeta
      \<and> snd (localMetaFromSnapshot K c (role @ ''.json'') fileMeta) = False
      \<and> downloadMetaFromSnapshot K c (role @ ''.json'') fileMeta = Inr raw
      \<and> (if role = ''targets''
          then dbUnmarshalTargets K (db c) raw role (FileVersion fileMeta)
          else verifierUnmarshal K vf raw role (FileVersion fileMeta)) = Inr T
      \<longrightarrow> c' = c\<lparr>local := snd (SetMeta K (local c) (role @ ''.json'') raw)\<rparr>)
   \<and> ((\<exists>err. res = Inl (ErrDecodeFailed (role @ ''.json'') err))
        \<or> res = Inl (ErrRoleNotInSnapshot role (Version snapshot)) \<longrightarrow> c' = c)"
  using assms
  by (auto simp: loadDelegatedTargets_def Let_def
      split: option.splits prod.splits sum.splits if_splits)

theorem C7_witness:
  "local (snd (loadDelegatedTargets ex_K (ex_client 10) ex_snapshot ''a'' [''k''])) = [(''a.json'', ''A'')]
   \<and> snd (loadDelegatedTargets ex_K (ex_client 10) ex_snapshot ''targets'' []) = ex_client 10
   \<and> loadDelegatedTargets ex_K (ex_client 10) ex_snapshot ''e'' [''k''] =
       (Inl (External DownloadIntegrityError), ex_client 10)"
proof -
  obtain res c' where l: "loadDelegatedTargets ex_K (ex_client 10) ex_snapshot ''a'' [''k''] = (res, c')"
    by (cases "loadDelegatedTargets ex_K (ex_client 10) ex_snapshot ''a'' [''k'']") auto
  have pre: "Meta ex_snapshot (''a'' @ ''.json'') = Some \<lparr>FileLength = 1, FileHashes = [], FileVersion = 1\<rparr>
      \<and> snd (localMetaFromSnapshot ex_K (ex_client 10) (''a'' @ ''.json'')
            \<lparr>FileLength = 1, FileHashes = [], FileVersion = 1\<rparr>) = False
      \<and> downloadMetaFromSnapshot ex_K (ex_client 10) (''a'' @ ''.json'')
            \<lparr>FileLength = 1, FileHashes = [], FileVersion = 1\<rparr> = Inr ''A''
      \<and> (if ''a'' = ''targets''
          then dbUnmarshalTargets ex_K (db (ex_client 10)) ''A'' ''a''
                 (FileVersion \<lparr>FileLength = 1, FileHashes = [], FileVersion = 1\<rparr>)
          else verifierUnmarshal ex_K [''k''] ''A'' ''a''
                 (FileVersion \<lparr>FileLength = 1, FileHashes = [], FileVersion = 1\<rparr>)) =
           Inr (ex_targets 1 [] [ex_role ''d'' [''f''] False, ex_role ''targets'' [''f'', ''h''] False])"
    by (simp add: ex_defs)
  from C7_persist_only_after_verification [OF l] pre
  have "c' = (ex_client 10)\<lparr>local := snd (SetMeta ex_K (local (ex_client 10)) (''a'' @ ''.json'') ''A'')\<rparr>"
    by blast
  with l have "local (snd (loadDelegatedTargets ex_K (ex_client 10) ex_snapshot ''a'' [''k''])) = [(''a.json'', ''A'')]"
    by (simp add: ex_K_def ex_client_def)
  moreover have "snd (loadDelegatedTargets ex_K (ex_client 10) ex_snapshot ''targets'' []) = ex_client 10"
    by (simp add: loadDelegatedTargets_def ex_defs)
  moreover have "loadDelegatedTargets ex_K (ex_client 10) ex_snapshot ''e'' [''k''] =
       (Inl (External DownloadIntegrityError), ex_client 10)"
    by (simp add: loadDelegatedTargets_def ex_defs)
  ultimately show ?thesis by simp
qed





section \<open>The resolution\<close>

text \<open>
  C2. In the log of one resolution the role names are pairwise distinct: every role name
  is handed out by \<^verbatim>\<open>next\<close> at most once, whatever branch registered it. So of two
  role names \<open>a\<close> and \<open>b\<close> at most two loads are made, however the two roles delegate to
  each other, and a resolution that only meets role names from a finite set \<open>S\<close> makes at
  most as many loads as \<open>S\<close> has names; when \<^verbatim>\<open>MaxDelegations\<close> is larger than that, it
  does not end with \<^verbatim>\<open>ErrMaxDelegations\<close>: a cycle cannot use up the bound.
\<close>

theorem C2_each_role_once:
  assumes "getTargetFileMeta K c tgt = (res, c', lg)"
  shows "distinct (log_names lg)
     \<and> length (filter (\<lambda>n. n = a \<or> n = b) (log_names lg)) \<le> 2
     \<and> (\<forall>S. finite S \<and> set (log_names lg) \<subseteq> S \<longrightarrow> length lg \<le> card S)
     \<and> (\<forall>S t m v. finite S \<and> set (log_names lg) \<subseteq> S \<and> int (card S) < MaxDelegations c'
           \<longrightarrow> res \<noteq> Inl (ErrMaxDelegations t m v))"
proof -
  from getTargetFileMeta_outcome_inv [OF assms] have d: "distinct (log_names lg)"
    by (simp add: outcome_inv_def log_inv_def)
  have len: "length lg \<le> card S" if "finite S" "set (log_names lg) \<subseteq> S" for S
  proof -
    from d have "length (log_names lg) = card (set (log_names lg))" by (rule distinct_card [symmetric])
    also from that have "\<dots> \<le> card S" by (intro card_mono)
    finally show ?thesis by simp
  qed
  have nb: "res \<noteq> Inl (ErrMaxDelegations t m v)"
    if "finite S" "set (log_names lg) \<subseteq> S" "int (card S) < MaxDelegations c'" for S t m v
  proof
    assume "res = Inl (ErrMaxDelegations t m v)"
    with assms getTargetFileMeta_bound [of K c tgt t m v c' lg]
    have "MaxDelegations c' \<le> int (length lg)" by simp
    with len [OF that(1,2)] that(3) show False by simp
  qed
  from d distinct_filter_two [OF d, of a b] len nb show ?thesis by blast
qed

text \<open>
  In the example repository \<open>targets\<close> delegates to \<open>a\<close> and \<open>a\<close> back to \<open>targets\<close>,
  both for the path \<open>h\<close>, which no role lists: the resolution loads the two roles once
  each and ends with \<^verbatim>\<open>ErrUnknownTarget\<close>.
\<close>

theorem C2_witness:
  "fst (getTargetFileMeta ex_K (ex_client 10) ''h'') = Inl (ErrUnknownTarget ''h'' 7)
   \<and> log_names (snd (snd (getTargetFileMeta ex_K (ex_client 10) ''h''))) = [''targets'', ''a'']
   \<and> length (snd (snd (getTargetFileMeta ex_K (ex_client 10) ''h''))) \<le> card {''targets'', ''a''}
   \<and> fst (getTargetFileMeta ex_K (ex_client 10) ''h'') \<noteq> Inl (ErrMaxDelegations ''h'' 10 7)"
proof -
  obtain res c' lg where g: "getTargetFileMeta ex_K (ex_client 10) ''h'' = (res, c', lg)"
    by (cases "getTargetFileMeta ex_K (ex_client 10) ''h''") auto
  have r: "fst (getTargetFileMeta ex_K (ex_client 10) ''h'') = Inl (ErrUnknownTarget ''h'' 7)"
    and n: "log_names (snd (snd (getTargetFileMeta ex_K (ex_client 10) ''h''))) = [''targets'', ''a'']"
    and m: "MaxDelegations (fst (snd (getTargetFileMeta ex_K (ex_client 10) ''h''))) = 10"
    by (simp_all add: run_defs ex_defs log_names_def)
  note t = C2_each_role_once [OF g, of "''targets''" "''a''"]
  have S: "finite {''targets'', ''a''} \<and> set (log_names lg) \<subseteq> {''targets'', ''a''}"
    using n g by simp
  from t S have 1: "length lg \<le> card {''targets'', ''a''}" by blast
  have "int (card {''targets'', ''a''}) < MaxDelegations c'" using m g by simp
  with t S have 2: "res \<noteq> Inl (ErrMaxDelegations ''h'' 10 7)" by blast
  from r n 1 2 g show ?thesis by simp
qed

text \<open>
  C6. Every load before the last one succeeded and did not list the target. A returned
  \<^verbatim>\<open>TargetFileMeta\<close> is the entry for the target in the metadata loaded last. A load
  whose metadata lists the target is the last load of the resolution, and its entry is
  the result: the first match in traversal order wins and no role is loaded after it.
\<close>

theorem C6_first_match_wins:
  assumes "getTargetFileMeta K c tgt = (r, c', lg)"
  shows "(\<forall>entry \<in> set (butlast lg). \<exists>T. snd entry = Inr T \<and> Targets T tgt = None)
     \<and> (\<forall>m. r = Inr m \<longrightarrow> lg \<noteq> [] \<and> (\<exists>T. snd (last lg) = Inr T \<and> Targets T tgt = Some m))
     \<and> (\<forall>i < length lg. \<forall>T m. snd (lg ! i) = Inr T \<and> Targets T tgt = Some m
           \<longrightarrow> Suc i = length lg \<and> r = Inr m)"
proof -
  from getTargetFileMeta_outcome_inv [OF assms]
  have bl: "\<forall>entry \<in> set (butlast lg). \<exists>T. snd entry = Inr T \<and> Targets T tgt = None"
    and res: "case r of
            Inr m \<Rightarrow> lg \<noteq> [] \<and> (\<exists>T. snd (last lg) = Inr T \<and> Targets T tgt = Some m)
          | Inl err \<Rightarrow>
              lg = [] \<or> (case snd (last lg) of
                           Inl err' \<Rightarrow> err' = err
                         | Inr T \<Rightarrow> Targets T tgt = None)"
    by (simp_all add: outcome_inv_def log_inv_def)
  from res have found: "\<forall>m. r = Inr m \<longrightarrow> lg \<noteq> [] \<and> (\<exists>T. snd (last lg) = Inr T \<and> Targets T tgt = Some m)"
    by auto
  have last: "Suc i = length lg \<and> r = Inr m"
    if i: "i < length lg" and T: "snd (lg ! i) = Inr T" "Targets T tgt = Some m" for i T m
  proof -
    have "\<not> i < length (butlast lg)"
    proof
      assume "i < length (butlast lg)"
      then have "butlast lg ! i \<in> set (butlast lg)" by (rule nth_mem)
      moreover from \<open>i < length (butlast lg)\<close> have "butlast lg ! i = lg ! i"
        by (simp add: nth_butlast)
      ultimately show False using bl T by auto
    qed
    with i have si: "Suc i = length lg" by simp
    with i have li: "last lg = lg ! i" by (cases lg rule: rev_cases) (auto simp: nth_append)
    from res T li i have "r = Inr m" by (cases r) auto
    with si show ?thesis by simp
  qed
  from bl found last show ?thesis by blast
qed

theorem C6_witness:
  "fst (getTargetFileMeta ex_K (ex_client 10) ''f'') = Inr ex_meta
   \<and> log_names (snd (snd (getTargetFileMeta ex_K (ex_client 10) ''f''))) = [''targets'', ''a'', ''d'', ''c'']
   \<and> (\<exists>T. snd (last (snd (snd (getTargetFileMeta ex_K (ex_client 10) ''f'')))) = Inr T
          \<and> Targets T ''f'' = Some ex_meta)"
proof -
  have r: "fst (getTargetFileMeta ex_K (ex_client 10) ''f'') = Inr ex_meta"
    and n: "log_names (snd (snd (getTargetFileMeta ex_K (ex_client 10) ''f''))) = [''targets'', ''a'', ''d'', ''c'']"
    by (simp_all add: run_defs ex_defs log_names_def)
  obtain c' lg where g: "getTargetFileMeta ex_K (ex_client 10) ''f'' = (Inr ex_meta, c', lg)"
    using r by (cases "getTargetFileMeta ex_K (ex_client 10) ''f''") auto
  from C6_first_match_wins [OF g] have "\<exists>T. snd (last lg) = Inr T \<and> Targets T ''f'' = Some ex_meta"
    by blast
  with g r n show ?thesis by simp
qed

text \<open>
  C8. \<^verbatim>\<open>add\<close> only appends to the stack, and every edge it appends is for one of the
  given roles for which \<^verbatim>\<open>MatchesPath\<close> returned true without error. It returns an
  error exactly when \<^verbatim>\<open>MatchesPath\<close> fails for one of the roles, and the error is
  that of such a role. In a resolution, every load after the first is for an edge whose
  role matches the target path, so a role that does not match is never loaded.
\<close>

theorem C8_only_matching_roles:
  assumes "add mp d roles dlg vf = (err, d')"
    and "getTargetFileMeta K c tgt = (r, c', lg)"
  shows "(\<exists>pushed. stack d' = stack d @ pushed
            \<and> (\<forall>e \<in> set pushed. delegatee e \<in> set roles \<and> mp (delegatee e) (target d) = Inr True))
     \<and> (err \<noteq> None \<longleftrightarrow> (\<exists>r \<in> set roles. isl (mp r (target d))))
     \<and> (\<forall>x. err = Some x \<longrightarrow> (\<exists>r \<in> set roles. mp r (target d) = Inl x))
     \<and> (\<forall>i < length lg. 0 < i \<longrightarrow> MatchesPath K (delegatee (fst (lg ! i))) tgt = Inr True)"
proof -
  let ?ok = "takeWhile (\<lambda>r. \<not> isl (mp r (target d))) (rev roles)"
  let ?pushed = "map (\<lambda>r. \<lparr>delegator = dlg, verifier = vf, delegatee = r\<rparr>)
             (filter (\<lambda>r. mp r (target d) = Inr True) ?ok)"
  from assms(1) have d': "d' = d\<lparr>stack := stack d @ ?pushed\<rparr>"
    and err: "err = map_option (\<lambda>r. projl (mp r (target d))) (find (\<lambda>r. isl (mp r (target d))) (rev roles))"
    by (simp_all add: add_eq)
  have "\<forall>e \<in> set ?pushed. delegatee e \<in> set roles \<and> mp (delegatee e) (target d) = Inr True"
    by (auto dest: set_takeWhileD)
  with d' have 1: "\<exists>pushed. stack d' = stack d @ pushed
            \<and> (\<forall>e \<in> set pushed. delegatee e \<in> set roles \<and> mp (delegatee e) (target d) = Inr True)"
    by (intro exI [of _ ?pushed]) simp
  from assms(1) add_error_iff [of mp d roles dlg vf]
  have 2: "err \<noteq> None \<longleftrightarrow> (\<exists>r \<in> set roles. isl (mp r (target d)))" by simp
  have 3: "\<exists>r \<in> set roles. mp r (target d) = Inl x" if "err = Some x" for x
  proof -
    from that err obtain r where f: "find (\<lambda>r. isl (mp r (target d))) (rev roles) = Some r"
      and x: "x = projl (mp r (target d))" by auto
    from find_SomeD [OF f] have "r \<in> set roles" "isl (mp r (target d))"
      by simp_all
    with x show ?thesis by (auto simp: isl_def)
  qed
  from getTargetFileMeta_outcome_inv [OF assms(2)]
  have "\<forall>i < length lg. 0 < i \<longrightarrow> (\<exists>j < i. registered_by K tgt (lg ! j) (fst (lg ! i)))"
    by (simp add: outcome_inv_def log_inv_def)
  then have 4: "\<forall>i < length lg. 0 < i \<longrightarrow> MatchesPath K (delegatee (fst (lg ! i))) tgt = Inr True"
    by (blast dest: registered_by_matches)
  from 1 2 3 4 show ?thesis by blast
qed

text \<open>
  In the example, \<open>b\<close> does not match the path \<open>f\<close>, the pattern of \<open>x\<close> is malformed.
\<close>

theorem C8_witness:
  "stack (snd (add (MatchesPath ex_K) (newDelegationsIterator [] ''f'')
       [ex_role ''a'' [''f''] False, ex_role ''b'' [''g''] False] ''targets'' [''k''])) =
     [seed_edge [], \<lparr>delegator = ''targets'', verifier = [''k''], delegatee = ex_role ''a'' [''f''] False\<rparr>]
   \<and> fst (add (MatchesPath ex_K) (newDelegationsIterator [] ''f'')
       [ex_role ''a'' [''f''] False, ex_role ''x'' [''[''] False] ''targets'' [''k'']) = Some MalformedPattern
   \<and> ''b'' \<notin> set (log_names (snd (snd (getTargetFileMeta ex_K (ex_client 10) ''f''))))
   \<and> MatchesPath ex_K (delegatee (fst (snd (snd (getTargetFileMeta ex_K (ex_client 10) ''f'')) ! 3))) ''f''
       = Inr True"
proof -
  let ?d = "newDelegationsIterator [] ''f'' :: string list delegationsIterator"
  let ?roles = "[ex_role ''a'' [''f''] False, ex_role ''x'' [''[''] False]"
  obtain err d' where a: "add (MatchesPath ex_K) ?d ?roles ''targets'' [''k''] = (err, d')"
    by (cases "add (MatchesPath ex_K) ?d ?roles ''targets'' [''k'']") auto
  obtain r c' lg where g: "getTargetFileMeta ex_K (ex_client 10) ''f'' = (r, c', lg)"
    by (cases "getTargetFileMeta ex_K (ex_client 10) ''f''") auto
  have n: "log_names (snd (snd (getTargetFileMeta ex_K (ex_client 10) ''f''))) = [''targets'', ''a'', ''d'', ''c'']"
    by (simp add: run_defs ex_defs log_names_def)
  with g have "length (log_names lg) = 4" by simp
  then have len: "length lg = 4" by simp
  from C8_only_matching_roles [OF a g] have
    e: "err \<noteq> None \<longleftrightarrow> (\<exists>r \<in> set ?roles. isl (MatchesPath ex_K r (target ?d)))"
    and x: "\<forall>x. err = Some x \<longrightarrow> (\<exists>r \<in> set ?roles. MatchesPath ex_K r (target ?d) = Inl x)"
    and m: "\<forall>i < length lg. 0 < i \<longrightarrow> MatchesPath ex_K (delegatee (fst (lg ! i))) ''f'' = Inr True"
    by blast+
  have "isl (MatchesPath ex_K (ex_role ''x'' [''[''] False) (target ?d))"
    by (simp add: ex_K_def ex_role_def)
  with e obtain y where y: "err = Some y" by auto
  with x have "y = MalformedPattern"
    by (auto simp: ex_K_def ex_role_def split: if_splits)
  with y a have 2: "fst (add (MatchesPath ex_K) ?d ?roles ''targets'' [''k'']) = Some MalformedPattern"
    by simp
  from m len have 4: "MatchesPath ex_K (delegatee (fst (lg ! 3))) ''f'' = Inr True" by simp
  have 1: "stack (snd (add (MatchesPath ex_K) ?d
       [ex_role ''a'' [''f''] False, ex_role ''b'' [''g''] False] ''targets'' [''k''])) =
     [seed_edge [], \<lparr>delegator = ''targets'', verifier = [''k''], delegatee = ex_role ''a'' [''f''] False\<rparr>]"
    by (simp add: add_def newDelegationsIterator_def seed_edge_def ex_K_def ex_role_def)
  from 1 2 4 n g show ?thesis by simp
qed

text \<open>
  C10. The first load of a resolution is for the seed edge, named \<open>targets\<close>. Every later
  load is for an edge with another role name, registered by an earlier load: its verifier
  is the one built from the delegations of the role that delegates to it. Each entry is
  the result of \<^verbatim>\<open>loadDelegatedTargets\<close> for the name and verifier of its edge, under
  the snapshot loaded at the start. Every successful load is of metadata that
  \<^verbatim>\<open>Unmarshal\<close> accepted for the bytes of the role's file at the version of its
  snapshot entry: the \<^verbatim>\<open>Unmarshal\<close> of the root-trust database for the first load,
  the \<^verbatim>\<open>Unmarshal\<close> of the edge's own verifier for every later load. For a role name
  other than \<open>targets\<close>, \<^verbatim>\<open>loadDelegatedTargets\<close> does not consult the root-trust
  database; for \<open>targets\<close> it consults neither the verifier of the edge nor
  \<^verbatim>\<open>DelegationsVerifier.Unmarshal\<close>.
\<close>

theorem C10_root_verifier_only_for_seed:
  assumes "getTargetFileMeta K c tgt = (r, c', lg)"
    and "loadLocalSnapshot K c = (sr, c1)"
  shows "(lg = [] \<or> fst (hd lg) = seed_edge (zeroVerifier K))
     \<and> (lg = [] \<or> (\<exists>snapshot. sr = Inr snapshot \<and> log_loads K c1 snapshot lg))
     \<and> (\<forall>i < length lg. 0 < i \<longrightarrow>
           Name (delegatee (fst (lg ! i))) \<noteq> ''targets''
           \<and> (\<exists>j < i. registered_by K tgt (lg ! j) (fst (lg ! i))))
     \<and> (\<forall>i < length lg. \<forall>T. snd (lg ! i) = Inr T \<longrightarrow>
           (\<exists>snap l fileMeta raw.
              sr = Inr snap
            \<and> Meta snap (Name (delegatee (fst (lg ! i))) @ ''.json'') = Some fileMeta
            \<and> loaded_bytes K (c1\<lparr>local := l\<rparr>) (Name (delegatee (fst (lg ! i))) @ ''.json'') fileMeta raw
            \<and> (if i = 0
                then dbUnmarshalTargets K (db c1) raw ''targets'' (FileVersion fileMeta)
                else verifierUnmarshal K (verifier (fst (lg ! i))) raw
                       (Name (delegatee (fst (lg ! i)))) (FileVersion fileMeta)) = Inr T))
     \<and> (\<forall>role. role \<noteq> ''targets'' \<longrightarrow>
           loadDelegatedTargets (K\<lparr>dbUnmarshalTargets := f\<rparr>) c0 snapshot role vf
             = loadDelegatedTargets K c0 snapshot role vf)
     \<and> loadDelegatedTargets (K\<lparr>verifierUnmarshal := g\<rparr>) c0 snapshot ''targets'' vf
          = loadDelegatedTargets K c0 snapshot ''targets'' vf'"
proof -
  from getTargetFileMeta_outcome_inv [OF assms(1)] have li: "log_inv K tgt lg"
    by (simp add: outcome_inv_def)
  then have 1: "lg = [] \<or> fst (hd lg) = seed_edge (zeroVerifier K)"
    and reg: "\<forall>i < length lg. 0 < i \<longrightarrow> (\<exists>j < i. registered_by K tgt (lg ! j) (fst (lg ! i)))"
    by (simp_all add: log_inv_def)
  from reg log_inv_not_targets [OF li]
  have 2: "\<forall>i < length lg. 0 < i \<longrightarrow>
           Name (delegatee (fst (lg ! i))) \<noteq> ''targets''
           \<and> (\<exists>j < i. registered_by K tgt (lg ! j) (fst (lg ! i)))"
    by blast
  have 3: "\<forall>role. role \<noteq> ''targets'' \<longrightarrow>
           loadDelegatedTargets (K\<lparr>dbUnmarshalTargets := f\<rparr>) c0 snapshot role vf
             = loadDelegatedTargets K c0 snapshot role vf"
    by (simp add: loadDelegatedTargets_def
        cong: option.case_cong prod.case_cong sum.case_cong if_cong)
  have 4: "loadDelegatedTargets (K\<lparr>verifierUnmarshal := g\<rparr>) c0 snapshot ''targets'' vf
          = loadDelegatedTargets K c0 snapshot ''targets'' vf'"
    by (simp add: loadDelegatedTargets_def
        cong: option.case_cong prod.case_cong sum.case_cong if_cong)
  note ll = getTargetFileMeta_loads [OF assms]
  have acc: "\<exists>snap l fileMeta raw.
              sr = Inr snap
            \<and> Meta snap (Name (delegatee (fst (lg ! i))) @ ''.json'') = Some fileMeta
            \<and> loaded_bytes K (c1\<lparr>local := l\<rparr>) (Name (delegatee (fst (lg ! i))) @ ''.json'') fileMeta raw
            \<and> (if i = 0
                then dbUnmarshalTargets K (db c1) raw ''targets'' (FileVersion fileMeta)
                else verifierUnmarshal K (verifier (fst (lg ! i))) raw
                       (Name (delegatee (fst (lg ! i)))) (FileVersion fileMeta)) = Inr T"
    if i: "i < length lg" and T: "snd (lg ! i) = Inr T" for i T
  proof -
    let ?e = "fst (lg ! i)"
    let ?n = "Name (delegatee ?e)"
    from i have ne: "lg \<noteq> []" by auto
    with ll obtain snap where sr: "sr = Inr snap" and lo: "log_loads K c1 snap lg" by blast
    from i have "lg ! i \<in> set lg" by simp
    with lo have "\<exists>l. snd (lg ! i) =
        fst (loadDelegatedTargets K (c1\<lparr>local := l\<rparr>) snap ?n (verifier ?e))"
      unfolding log_loads_def by (rule bspec)
    with T obtain l where
      "fst (loadDelegatedTargets K (c1\<lparr>local := l\<rparr>) snap ?n (verifier ?e)) = Inr T"
      by auto
    then obtain c2 where
      "loadDelegatedTargets K (c1\<lparr>local := l\<rparr>) snap ?n (verifier ?e) = (Inr T, c2)"
      by (cases "loadDelegatedTargets K (c1\<lparr>local := l\<rparr>) snap ?n (verifier ?e)") auto
    from loadDelegatedTargets_verified [OF this] obtain fileMeta raw where
      m: "Meta snap (?n @ ''.json'') = Some fileMeta"
      and lb: "loaded_bytes K (c1\<lparr>local := l\<rparr>) (?n @ ''.json'') fileMeta raw"
      and u: "(if ?n = ''targets''
         then dbUnmarshalTargets K (db (c1\<lparr>local := l\<rparr>)) raw ?n (FileVersion fileMeta)
         else verifierUnmarshal K (verifier ?e) raw ?n (FileVersion fileMeta)) = Inr T"
      by blast
    have "(if i = 0
                then dbUnmarshalTargets K (db c1) raw ''targets'' (FileVersion fileMeta)
                else verifierUnmarshal K (verifier ?e) raw ?n (FileVersion fileMeta)) = Inr T"
    proof (cases "i = 0")
      case True
      with ne have "lg ! i = hd lg" by (simp add: hd_conv_nth)
      with 1 ne have "?n = ''targets''" by (simp add: seed_edge_def DelegatedRole_named_def)
      with u True show ?thesis by simp
    next
      case False
      with 2 i have "?n \<noteq> ''targets''" by simp
      with u False show ?thesis by simp
    qed
    with sr m lb show ?thesis by blast
  qed
  have 5: "\<forall>i < length lg. \<forall>T. snd (lg ! i) = Inr T \<longrightarrow>
           (\<exists>snap l fileMeta raw.
              sr = Inr snap
            \<and> Meta snap (Name (delegatee (fst (lg ! i))) @ ''.json'') = Some fileMeta
            \<and> loaded_bytes K (c1\<lparr>local := l\<rparr>) (Name (delegatee (fst (lg ! i))) @ ''.json'') fileMeta raw
            \<and> (if i = 0
                then dbUnmarshalTargets K (db c1) raw ''targets'' (FileVersion fileMeta)
                else verifierUnmarshal K (verifier (fst (lg ! i))) raw
                       (Name (delegatee (fst (lg ! i)))) (FileVersion fileMeta)) = Inr T)"
    by (intro allI impI) (rule acc)
  from ll have 6: "lg = [] \<or> (\<exists>snapshot. sr = Inr snapshot \<and> log_loads K c1 snapshot lg)" .
  from 1 6 2 5 3 4 show ?thesis by (intro conjI)
qed

text \<open>
  In the example, \<open>a\<close> delegates to a role named \<open>targets\<close> for the path \<open>f\<close>; that
  edge is never loaded.
\<close>

theorem C10_witness:
  "log_names (snd (snd (getTargetFileMeta ex_K (ex_client 10) ''f''))) = [''targets'', ''a'', ''d'', ''c'']
   \<and> fst (hd (snd (snd (getTargetFileMeta ex_K (ex_client 10) ''f'')))) = seed_edge []
   \<and> (\<exists>j < 2. registered_by ex_K ''f'' (snd (snd (getTargetFileMeta ex_K (ex_client 10) ''f'')) ! j)
         (fst (snd (snd (getTargetFileMeta ex_K (ex_client 10) ''f'')) ! 2)))
   \<and> (\<exists>raw T. snd (snd (snd (getTargetFileMeta ex_K (ex_client 10) ''f'')) ! 2) = Inr T
         \<and> verifierUnmarshal ex_K [''k''] raw ''d'' 1 = Inr T)"
proof -
  obtain r c' lg where g: "getTargetFileMeta ex_K (ex_client 10) ''f'' = (r, c', lg)"
    by (cases "getTargetFileMeta ex_K (ex_client 10) ''f''") auto
  obtain sr c1 where ls: "loadLocalSnapshot ex_K (ex_client 10) = (sr, c1)"
    by (cases "loadLocalSnapshot ex_K (ex_client 10)") auto
  have n: "log_names (snd (snd (getTargetFileMeta ex_K (ex_client 10) ''f''))) = [''targets'', ''a'', ''d'', ''c'']"
    by (simp add: run_defs ex_defs log_names_def)
  with g have "length (log_names lg) = 4" by simp
  then have len: "length lg = 4" by simp
  note t = C10_root_verifier_only_for_seed [OF g ls, where f = "dbUnmarshalTargets ex_K"
      and ?c0.0 = "ex_client 10" and snapshot = ex_snapshot and vf = "[]"
      and g = "verifierUnmarshal ex_K" and vf' = "[]"]
  from len have ne: "lg \<noteq> []" by auto
  from t ne have "fst (hd lg) = seed_edge (zeroVerifier ex_K)" by blast
  moreover from t len have "\<exists>j < 2. registered_by ex_K ''f'' (lg ! j) (fst (lg ! 2))" by simp
  ultimately have a: "fst (hd lg) = seed_edge (zeroVerifier ex_K)"
    and b: "\<exists>j < 2. registered_by ex_K ''f'' (lg ! j) (fst (lg ! 2))" .
  have e2: "snd (snd (getTargetFileMeta ex_K (ex_client 10) ''f'')) ! 2 =
      (\<lparr>delegator = ''a'', verifier = [''k''], delegatee = ex_role ''d'' [''f''] False\<rparr>,
       Inr (ex_targets 1 [] []))"
    by (simp add: run_defs ex_defs)
  with g have lg2: "lg ! 2 =
      (\<lparr>delegator = ''a'', verifier = [''k''], delegatee = ex_role ''d'' [''f''] False\<rparr>,
       Inr (ex_targets 1 [] []))" by simp
  from len have l2: "2 < length lg" by simp
  from lg2 have s2: "snd (lg ! 2) = Inr (ex_targets 1 [] [])" by simp
  note t4 = t [THEN conjunct2, THEN conjunct2, THEN conjunct2, THEN conjunct1,
      THEN spec, THEN mp, OF l2, THEN spec, THEN mp, OF s2]
  then obtain snap l fileMeta raw where
    "sr = Inr snap"
    and m: "Meta snap (Name (delegatee (fst (lg ! 2))) @ ''.json'') = Some fileMeta"
    and u: "verifierUnmarshal ex_K (verifier (fst (lg ! 2))) raw
              (Name (delegatee (fst (lg ! 2)))) (FileVersion fileMeta) = Inr (ex_targets 1 [] [])"
    by auto
  with ls have "snap = ex_snapshot"
    by (simp add: loadLocalSnapshot_def ex_K_def ex_client_def)
  with m lg2 have "FileVersion fileMeta = 1"
    by (auto simp: ex_snapshot_def ex_role_def)
  with u lg2 have "snd (lg ! 2) = Inr (ex_targets 1 [] [])
      \<and> verifierUnmarshal ex_K [''k''] raw ''d'' 1 = Inr (ex_targets 1 [] [])"
    by (simp add: ex_role_def)
  then have c: "\<exists>raw T. snd (lg ! 2) = Inr T \<and> verifierUnmarshal ex_K [''k''] raw ''d'' 1 = Inr T"
    by blast
  from a b c n g show ?thesis by (simp add: ex_K_def)
qed

text \<open>
  C5. Once the local snapshot is loaded, \<^verbatim>\<open>getTargetFileMeta\<close> fails with
  \<^verbatim>\<open>ErrUnknownTarget\<close> exactly when, after some number \<open>k\<close> of passes through the loop
  body that did not return, with \<open>k\<close> below \<^verbatim>\<open>MaxDelegations\<close>, \<^verbatim>\<open>next\<close> finds
  the iterator exhausted; the error carries the target and the version of the snapshot.
  It fails with \<^verbatim>\<open>ErrMaxDelegations\<close> exactly when \<^verbatim>\<open>MaxDelegations\<close> passes
  complete without returning (none, when the bound is zero or negative); the error
  carries the target, the bound and the version of the snapshot.
\<close>

theorem C5_unknown_target_and_bound:
  assumes "loadLocalSnapshot K c = (Inr snapshot, c1)"
  shows "(fst (getTargetFileMeta K c tgt) = Inl (ErrUnknownTarget t v) \<longleftrightarrow>
            t = tgt \<and> v = Version snapshot
            \<and> (\<exists>k st'. int k < MaxDelegations c1
                 \<and> passes K snapshot tgt k (newDelegationsIterator (zeroVerifier K) tgt, c1, []) = Some st'
                 \<and> fst (next_it (fst st')) = None))
     \<and> (fst (getTargetFileMeta K c tgt) = Inl (ErrMaxDelegations t m v) \<longleftrightarrow>
            t = tgt \<and> m = MaxDelegations c1 \<and> v = Version snapshot
            \<and> (\<exists>st'. passes K snapshot tgt (nat (MaxDelegations c1))
                        (newDelegationsIterator (zeroVerifier K) tgt, c1, []) = Some st'))"
proof -
  let ?st = "(newDelegationsIterator (zeroVerifier K) tgt, c1, [])"
  from assms have g: "getTargetFileMeta K c tgt = delegations_loop K snapshot tgt 0 ?st"
    by (simp add: getTargetFileMeta_def)
  from delegations_loop_unknown [of K snapshot tgt 0 ?st t v]
    delegations_loop_max [of K snapshot tgt 0 ?st t m v]
  show ?thesis unfolding g by simp
qed

theorem C5_witness:
  "fst (getTargetFileMeta ex_K (ex_client 10) ''g'') = Inl (ErrUnknownTarget ''g'' 7)
   \<and> (\<exists>k st'. int k < 10
         \<and> passes ex_K ex_snapshot ''g'' k (newDelegationsIterator [] ''g'', ex_client 10, []) = Some st'
         \<and> fst (next_it (fst st')) = None)
   \<and> fst (getTargetFileMeta ex_K (ex_client 3) ''f'') = Inl (ErrMaxDelegations ''f'' 3 7)
   \<and> (\<exists>st'. passes ex_K ex_snapshot ''f'' 3 (newDelegationsIterator [] ''f'', ex_client 3, []) = Some st')"
proof -
  have s10: "loadLocalSnapshot ex_K (ex_client 10) = (Inr ex_snapshot, ex_client 10)"
    and s3: "loadLocalSnapshot ex_K (ex_client 3) = (Inr ex_snapshot, ex_client 3)"
    by (simp_all add: loadLocalSnapshot_def ex_K_def ex_client_def)
  have g: "fst (getTargetFileMeta ex_K (ex_client 10) ''g'') = Inl (ErrUnknownTarget ''g'' 7)"
    and f: "fst (getTargetFileMeta ex_K (ex_client 3) ''f'') = Inl (ErrMaxDelegations ''f'' 3 7)"
    by (simp_all add: run_defs ex_defs)
  from C5_unknown_target_and_bound [OF s10, of "''g''" "''g''" 7] g
  have "\<exists>k st'. int k < MaxDelegations (ex_client 10)
         \<and> passes ex_K ex_snapshot ''g'' k (newDelegationsIterator (zeroVerifier ex_K) ''g'', ex_client 10, []) = Some st'
         \<and> fst (next_it (fst st')) = None"
    by blast
  then have 1: "\<exists>k st'. int k < 10
         \<and> passes ex_K ex_snapshot ''g'' k (newDelegationsIterator [] ''g'', ex_client 10, []) = Some st'
         \<and> fst (next_it (fst st')) = None"
    by (simp add: ex_K_def ex_client_def)
  from C5_unknown_target_and_bound [OF s3, of "''f''" "''f''" 7 3] f
  have "\<exists>st'. passes ex_K ex_snapshot ''f'' (nat (MaxDelegations (ex_client 3)))
                        (newDelegationsIterator (zeroVerifier ex_K) ''f'', ex_client 3, []) = Some st'"
    by blast
  then have 2: "\<exists>st'. passes ex_K ex_snapshot ''f'' 3 (newDelegationsIterator [] ''f'', ex_client 3, []) = Some st'"
    by (simp add: ex_K_def ex_client_def)
  from g 1 f 2 show ?thesis by blast
qed

section \<open>Terminating edges\<close>

text \<open>
  C1 (as amended). When the edge returned by \<^verbatim>\<open>next\<close> is terminating, the iterator
  comes back with an empty stack, so the next call of \<^verbatim>\<open>next\<close> returns nothing, and
  whatever the caller does afterwards, every edge that \<^verbatim>\<open>next\<close> still returns is one
  that a later call of \<^verbatim>\<open>add\<close> was given: none of the edges that were pending is
  ever returned.
\<close>

theorem C1_terminating_clears_stack:
  assumes "next_it d = (Some e, d')" and "Terminating (delegatee e)"
  shows "stack d' = [] \<and> fst (next_it d') = None
     \<and> (\<forall>ops. set (run_ops mp ops d') \<subseteq> set (pushed_by mp (target d) ops))"
proof -
  from next_it_Some [OF assms(1)] assms(2) have s: "stack d' = []" and t: "target d' = target d"
    by auto
  from s have "fst (next_it d') = None" by (simp add: next_it_Nil)
  moreover from run_ops_subset [of mp _ d'] s t
  have "\<forall>ops. set (run_ops mp ops d') \<subseteq> set (pushed_by mp (target d) ops)" by simp
  ultimately show ?thesis using s by simp
qed

theorem C1_witness:
  "next_it ex_iterator =
     (Some \<lparr>delegator = ''targets'', verifier = [''k''], delegatee = ex_role ''t'' [''f''] True\<rparr>,
      \<lparr>stack = [], target = ''f'', visitedRoles = {''t'', ''targets''}\<rparr>)
   \<and> fst (next_it (snd (next_it ex_iterator))) = None
   \<and> set (run_ops (MatchesPath ex_K) [Next, Add [ex_role ''u'' [''f''] False] ''t'' [''k''], Next, Next]
            (snd (next_it ex_iterator)))
       \<subseteq> {\<lparr>delegator = ''t'', verifier = [''k''], delegatee = ex_role ''u'' [''f''] False\<rparr>}"
proof -
  let ?e = "\<lparr>delegator = ''targets'', verifier = [''k''], delegatee = ex_role ''t'' [''f''] True\<rparr>"
  let ?d' = "\<lparr>stack = [], target = ''f'', visitedRoles = {''t'', ''targets''}\<rparr> :: string list delegationsIterator"
  have n: "next_it ex_iterator = (Some ?e, ?d')"
    by (simp add: next_it.simps ex_iterator_def ex_role_def)
  have t: "Terminating (delegatee ?e)" by (simp add: ex_role_def)
  from C1_terminating_clears_stack [OF n t, of "MatchesPath ex_K"]
  have "fst (next_it ?d') = None"
    and "set (run_ops (MatchesPath ex_K) [Next, Add [ex_role ''u'' [''f''] False] ''t'' [''k''], Next, Next] ?d')
      \<subseteq> set (pushed_by (MatchesPath ex_K) (target ex_iterator)
                [Next, Add [ex_role ''u'' [''f''] False] ''t'' [''k''], Next, Next])"
    by blast+
  with n show ?thesis by (simp add: ex_K_def ex_role_def ex_iterator_def)
qed

text \<open>
  C1 (as stated) fails: after \<^verbatim>\<open>next\<close> has returned the terminating edge \<open>t\<close> and
  cleared the stack, a call of \<^verbatim>\<open>add\<close> with the matching role \<open>u\<close> makes the following
  \<^verbatim>\<open>next\<close> return the edge to \<open>u\<close>.
\<close>

theorem C1_counterexample:
  "fst (next_it ex_iterator) =
     Some \<lparr>delegator = ''targets'', verifier = [''k''], delegatee = ex_role ''t'' [''f''] True\<rparr>
   \<and> Terminating (ex_role ''t'' [''f''] True)
   \<and> stack (snd (next_it ex_iterator)) = []
   \<and> fst (next_it (snd (add (MatchesPath ex_K) (snd (next_it ex_iterator))
                           [ex_role ''u'' [''f''] False] ''t'' [''k'']))) =
     Some \<lparr>delegator = ''t'', verifier = [''k''], delegatee = ex_role ''u'' [''f''] False\<rparr>"
  by (simp add: next_it.simps add_def ex_iterator_def ex_role_def ex_K_def)

section \<open>Traversal order\<close>

text \<open>
  C3. When no path pattern is malformed, \<^verbatim>\<open>add\<close> puts the edges for the matching roles
  on the stack in reverse declared order, on top of what was there. Whenever the
  specification's pre-order traversal of a delegation graph yields the sequence \<open>tr\<close>, the
  iterator, driven by \<^verbatim>\<open>next\<close> and \<^verbatim>\<open>add\<close> as the loop drives it, visits exactly
  the edges of \<open>tr\<close> in that order. A resolution whose loads do not depend on the state of
  the local store loads the roles along an initial segment of \<open>tr\<close> (it ends earlier when
  the target is found, on an error, or at the bound).
\<close>

theorem C3_preorder_traversal:
  assumes "loadLocalSnapshot K c = (Inr snapshot, c1)"
    and "\<forall>l role vf. fst (loadDelegatedTargets K (c1\<lparr>local := l\<rparr>) snapshot role vf) = L role vf"
    and "preorder k (children (MatchesPath K) (graph_of K L) tgt) {} [seed_edge (zeroVerifier K)]
           = Some (V, stop, tr)"
    and "\<forall>e \<in> set tr. \<forall>r \<in> set (fst (graph_of K L e)). \<not> isl (MatchesPath K r tgt)"
    and "getTargetFileMeta K c tgt = (res, c', lg)"
  shows "(\<forall>d roles dlg vf. (\<forall>r \<in> set roles. \<not> isl (MatchesPath K r (target d))) \<longrightarrow>
            add (MatchesPath K) d roles dlg vf =
              (None, d\<lparr>stack := stack d @
                 rev (map (\<lambda>r. \<lparr>delegator = dlg, verifier = vf, delegatee = r\<rparr>)
                   (filter (\<lambda>r. MatchesPath K r (target d) = Inr True) roles))\<rparr>))
     \<and> (\<forall>g k' V' stop' tr'.
            preorder k' (children (MatchesPath K) g tgt) {} [seed_edge (zeroVerifier K)] = Some (V', stop', tr')
            \<and> (\<forall>e \<in> set tr'. \<forall>r \<in> set (fst (g e)). \<not> isl (MatchesPath K r tgt))
          \<longrightarrow> (\<forall>m. traverse (MatchesPath K) g m (newDelegationsIterator (zeroVerifier K) tgt) = take m tr'))
     \<and> map fst lg = take (length lg) tr"
proof -
  have 1: "add (MatchesPath K) d roles dlg vf =
              (None, d\<lparr>stack := stack d @
                 rev (map (\<lambda>r. \<lparr>delegator = dlg, verifier = vf, delegatee = r\<rparr>)
                   (filter (\<lambda>r. MatchesPath K r (target d) = Inr True) roles))\<rparr>)"
    if ok: "\<forall>r \<in> set roles. \<not> isl (MatchesPath K r (target d))" for d roles dlg vf
  proof -
    obtain err d' where a: "add (MatchesPath K) d roles dlg vf = (err, d')"
      by (cases "add (MatchesPath K) d roles dlg vf") auto
    with ok add_error_iff [of "MatchesPath K" d roles dlg vf] have "err = None" by auto
    with a add_None [of "MatchesPath K" d roles dlg vf d'] show ?thesis by simp
  qed
  have 2: "traverse (MatchesPath K) g m (newDelegationsIterator (zeroVerifier K) tgt) = take m tr'"
    if "preorder k' (children (MatchesPath K) g tgt) {} [seed_edge (zeroVerifier K)] = Some (V', stop', tr')"
      and "\<forall>e \<in> set tr'. \<forall>r \<in> set (fst (g e)). \<not> isl (MatchesPath K r tgt)"
    for g k' V' stop' tr' m
    using that by (rule preorder_traverse_new)
  have c1: "c1 = c1\<lparr>local := local c1\<rparr>" by simp
  from assms(1,5) have "delegations_loop K snapshot tgt 0
      (newDelegationsIterator (zeroVerifier K) tgt, c1, []) = (res, c', lg)"
    by (simp add: getTargetFileMeta_def)
  with delegations_loop_traverse [OF assms(2), of tgt 0 "newDelegationsIterator (zeroVerifier K) tgt" "local c1" "[]"]
  obtain m where "map fst lg = take m (traverse (MatchesPath K) (graph_of K L) (nat (MaxDelegations c1))
      (newDelegationsIterator (zeroVerifier K) tgt))"
    by auto
  with preorder_traverse_new [OF assms(3,4), of "nat (MaxDelegations c1)"]
  have "map fst lg = take m (take (nat (MaxDelegations c1)) tr)" by simp
  then have m: "map fst lg = take (min m (nat (MaxDelegations c1))) tr" by (simp add: min.commute)
  then have "length lg = min (min m (nat (MaxDelegations c1))) (length tr)"
    by (metis length_map length_take min.commute)
  with m have 3: "map fst lg = take (length lg) tr" by (simp add: min_def split: if_splits)
  have A: "\<forall>d roles dlg vf. (\<forall>r \<in> set roles. \<not> isl (MatchesPath K r (target d))) \<longrightarrow>
            add (MatchesPath K) d roles dlg vf =
              (None, d\<lparr>stack := stack d @
                 rev (map (\<lambda>r. \<lparr>delegator = dlg, verifier = vf, delegatee = r\<rparr>)
                   (filter (\<lambda>r. MatchesPath K r (target d) = Inr True) roles))\<rparr>)"
    by (intro allI impI) (rule 1)
  have B: "\<forall>g k' V' stop' tr'.
            preorder k' (children (MatchesPath K) g tgt) {} [seed_edge (zeroVerifier K)] = Some (V', stop', tr')
            \<and> (\<forall>e \<in> set tr'. \<forall>r \<in> set (fst (g e)). \<not> isl (MatchesPath K r tgt))
          \<longrightarrow> (\<forall>m. traverse (MatchesPath K) g m (newDelegationsIterator (zeroVerifier K) tgt) = take m tr')"
  proof (intro allI impI)
    fix g k' V' stop' tr' m
    assume "preorder k' (children (MatchesPath K) g tgt) {} [seed_edge (zeroVerifier K)] = Some (V', stop', tr')
            \<and> (\<forall>e \<in> set tr'. \<forall>r \<in> set (fst (g e)). \<not> isl (MatchesPath K r tgt))"
    then show "traverse (MatchesPath K) g m (newDelegationsIterator (zeroVerifier K) tgt) = take m tr'"
      using 2 [of k' g V' stop' tr' m] by simp
  qed
  from A B 3 show ?thesis by (intro conjI)
qed

theorem C3_witness:
  "map (\<lambda>e. Name (delegatee e))
     (traverse (MatchesPath ex_K) (graph_of ex_K ex_load) 10 (newDelegationsIterator [] ''f''))
     = [''targets'', ''a'', ''d'', ''c'']
   \<and> log_names (snd (snd (getTargetFileMeta ex_K (ex_client 10) ''f''))) = [''targets'', ''a'', ''d'', ''c'']
   \<and> stack (snd (add (MatchesPath ex_K) (newDelegationsIterator [] ''f'')
        [ex_role ''a'' [''f''] False, ex_role ''b'' [''g''] False, ex_role ''c'' [''f''] False] ''targets'' [''k'']))
     = [seed_edge [],
        \<lparr>delegator = ''targets'', verifier = [''k''], delegatee = ex_role ''c'' [''f''] False\<rparr>,
        \<lparr>delegator = ''targets'', verifier = [''k''], delegatee = ex_role ''a'' [''f''] False\<rparr>]"
proof -
  let ?tr = "[seed_edge [],
      \<lparr>delegator = ''targets'', verifier = [''k''], delegatee = ex_role ''a'' [''f'', ''g'', ''h''] False\<rparr>,
      \<lparr>delegator = ''a'', verifier = [''k''], delegatee = ex_role ''d'' [''f''] False\<rparr>,
      \<lparr>delegator = ''targets'', verifier = [''k''], delegatee = ex_role ''c'' [''f''] False\<rparr>]"
  let ?roles = "[ex_role ''a'' [''f''] False, ex_role ''b'' [''g''] False, ex_role ''c'' [''f''] False]"
  have snap: "loadLocalSnapshot ex_K (ex_client 10) = (Inr ex_snapshot, ex_client 10)"
    by (simp add: loadLocalSnapshot_def ex_K_def ex_client_def)
  have pre: "preorder 6 (children (MatchesPath ex_K) (graph_of ex_K ex_load) ''f'') {} [seed_edge (zeroVerifier ex_K)]
      = Some ({''c'', ''d'', ''a'', ''targets''}, False, ?tr)"
    by (simp add: eval_nat_numeral children_def graph_of_def ex_load_def seed_edge_def
        DelegatedRole_named_def loadDelegatedTargets_def ex_defs insert_commute)
  have noerr: "\<forall>e \<in> set ?tr. \<forall>r \<in> set (fst (graph_of ex_K ex_load e)). \<not> isl (MatchesPath ex_K r ''f'')"
    by (simp add: graph_of_def ex_load_def seed_edge_def
        DelegatedRole_named_def loadDelegatedTargets_def ex_defs)
  obtain res c' lg where g: "getTargetFileMeta ex_K (ex_client 10) ''f'' = (res, c', lg)"
    by (cases "getTargetFileMeta ex_K (ex_client 10) ''f''") auto
  have n: "log_names (snd (snd (getTargetFileMeta ex_K (ex_client 10) ''f''))) = [''targets'', ''a'', ''d'', ''c'']"
    by (simp add: run_defs ex_defs log_names_def)
  note t = C3_preorder_traversal [OF snap ex_static pre noerr g]
  note t1 = t [THEN conjunct1, THEN spec, THEN spec, THEN spec, THEN spec, THEN mp]
  note t2 = t [THEN conjunct2, THEN conjunct1, THEN spec, THEN spec, THEN spec, THEN spec, THEN spec,
      THEN mp, THEN spec]
  from t2 [OF conjI [OF pre noerr], of 10]
  have "traverse (MatchesPath ex_K) (graph_of ex_K ex_load) 10 (newDelegationsIterator (zeroVerifier ex_K) ''f'')
      = take 10 ?tr" .
  then have 1: "map (\<lambda>e. Name (delegatee e))
     (traverse (MatchesPath ex_K) (graph_of ex_K ex_load) 10 (newDelegationsIterator [] ''f''))
     = [''targets'', ''a'', ''d'', ''c'']"
    by (simp add: ex_K_def seed_edge_def DelegatedRole_named_def ex_role_def)
  have "\<forall>r \<in> set ?roles. \<not> isl (MatchesPath ex_K r (target (newDelegationsIterator [] ''f'' :: string list delegationsIterator)))"
    by (simp add: ex_K_def ex_role_def)
  from t1 [OF this] have "add (MatchesPath ex_K) (newDelegationsIterator [] ''f'') ?roles ''targets'' [''k''] =
      (None, (newDelegationsIterator [] ''f'')\<lparr>stack := stack (newDelegationsIterator [] ''f'') @
                 rev (map (\<lambda>r. \<lparr>delegator = ''targets'', verifier = [''k''], delegatee = r\<rparr>)
                   (filter (\<lambda>r. MatchesPath ex_K r (target (newDelegationsIterator [] ''f'' :: string list delegationsIterator)) = Inr True) ?roles))\<rparr>)" .
  then have 3: "stack (snd (add (MatchesPath ex_K) (newDelegationsIterator [] ''f'') ?roles ''targets'' [''k'']))
     = [seed_edge [],
        \<lparr>delegator = ''targets'', verifier = [''k''], delegatee = ex_role ''c'' [''f''] False\<rparr>,
        \<lparr>delegator = ''targets'', verifier = [''k''], delegatee = ex_role ''a'' [''f''] False\<rparr>]"
    by (simp add: newDelegationsIterator_def seed_edge_def ex_K_def ex_role_def)
  from 1 n 3 show ?thesis by simp
qed

end
